theory Spec2Isabelle
  imports Main "HOL-Library.Multiset"
begin

section \<open>Errors and checked access\<close>

text \<open>
  The library reports a violated contract in two ways: \<^verbatim>\<open>assert\<close> (the program aborts) and
  the checked accessors \<^verbatim>\<open>std::vector::at\<close> and \<^verbatim>\<open>std::unordered_map::at\<close> (which throw
  \<^verbatim>\<open>std::out_of_range\<close>, a \<^verbatim>\<open>std::logic_error\<close>).  The template constraint
  \<^verbatim>\<open>std::enable_if<(K > 2)>\<close> of \<^verbatim>\<open>KHeap\<close> refuses an instantiation; the model records it
  as the error \<open>ill_formed\<close> of the operation that would construct the object.
  Every operation returns \<open>error + result\<close>, with \<open>Inl\<close> the error.  Assertions are taken as
  enabled: the compiler options of the repository never define \<^verbatim>\<open>NDEBUG\<close>.  An exception
  that leaves a \<^verbatim>\<open>noexcept\<close> function ends the program; the model keeps the error that
  caused it.
\<close>

datatype error = assertion_failed | out_of_range | ill_formed

definition at :: "'a list \<Rightarrow> nat \<Rightarrow> error + 'a" where
  "at xs i = (if i < length xs then Inr (xs ! i) else Inl out_of_range)"

definition map_at :: "('a \<rightharpoonup> 'b) \<Rightarrow> 'a \<Rightarrow> error + 'b" where
  "map_at m k = (case m k of None \<Rightarrow> Inl out_of_range | Some v \<Rightarrow> Inr v)"

text \<open>
  Indices are \<^verbatim>\<open>std::size_t\<close> values, modelled as natural numbers.  An index is below the
  size of a vector, which is below \<open>2 ^ 63\<close>, so \<^verbatim>\<open>(i << 1) + 2\<close> and \<^verbatim>\<open>K * i + j + 1\<close> cannot
  wrap.  A subtraction can: \<^verbatim>\<open>i - 1\<close> at \<open>i = 0\<close> and \<^verbatim>\<open>size() - 2\<close> at a size below two.  It
  is written out, for a 64-bit \<^verbatim>\<open>size_t\<close>.
\<close>

definition size_t_sub :: "nat \<Rightarrow> nat \<Rightarrow> nat" where
  "size_t_sub a b = (if b \<le> a then a - b else 2 ^ 64 + a - b)"

section \<open>Index arithmetic of BinaryHeap and KHeap\<close>

definition left :: "nat \<Rightarrow> nat" where
  "left i = push_bit 1 i + 1"

definition right :: "nat \<Rightarrow> nat" where
  "right i = push_bit 1 i + 2"

definition BinaryHeap_is_leaf :: "nat \<Rightarrow> nat \<Rightarrow> bool" where
  "BinaryHeap_is_leaf sz i = (drop_bit 1 sz + 1 \<le> i)"

definition BinaryHeap_parent :: "nat \<Rightarrow> nat" where
  "BinaryHeap_parent i = drop_bit 1 (size_t_sub i 1)"

definition child :: "nat \<Rightarrow> nat \<Rightarrow> nat \<Rightarrow> nat" where
  "child K i j = K * i + j + 1"

definition KHeap_is_leaf :: "nat \<Rightarrow> nat \<Rightarrow> nat \<Rightarrow> bool" where
  "KHeap_is_leaf K sz i = (size_t_sub sz 2 div K < i)"

definition KHeap_parent :: "nat \<Rightarrow> nat \<Rightarrow> nat" where
  "KHeap_parent K i = size_t_sub i 1 div K"

section \<open>The Heap base class\<close>

text \<open>
  \<open>Heap\<close> holds the vector \<open>nodes\<close>; \<open>PriorityQueue\<close> derives from a heap and adds the two
  hash maps.  The inheritance is an extensible record, so the algorithms of \<open>Heap\<close> run on
  both.  What a derived class fixes (the arity-specific code, the comparator, the virtual
  \<open>swap_nodes\<close>) is a record of its own, handed to the algorithms.  The comparator of a
  priority queue reads the key map through a reference, so it takes the current object.
\<close>

datatype heap_impl = BinaryHeap | KHeap nat

datatype Type = min_heap | max_heap

record 'a Heap =
  nodes :: "'a list"

record ('a, 's) heap_class =
  impl :: heap_impl
  comp_fn :: "'s \<Rightarrow> 'a \<Rightarrow> 'a \<Rightarrow> error + bool"
  swap_nodes :: "nat \<Rightarrow> nat \<Rightarrow> 's \<Rightarrow> error + 's"

type_synonym ('a, 'm) cls = "('a, ('a, 'm) Heap_scheme) heap_class"

definition size_h :: "('a, 'm) Heap_scheme \<Rightarrow> nat" where
  "size_h s = length (nodes s)"

definition empty_h :: "('a, 'm) Heap_scheme \<Rightarrow> bool" where
  "empty_h s = (size_h s = 0)"

definition parent :: "heap_impl \<Rightarrow> nat \<Rightarrow> nat" where
  "parent h i = (case h of BinaryHeap \<Rightarrow> BinaryHeap_parent i | KHeap K \<Rightarrow> KHeap_parent K i)"

definition Heap_swap_nodes :: "nat \<Rightarrow> nat \<Rightarrow> ('a, 'm) Heap_scheme \<Rightarrow> error + ('a, 'm) Heap_scheme" where
  "Heap_swap_nodes i j s =
     (case at (nodes s) i of Inl e \<Rightarrow> Inl e | Inr a \<Rightarrow>
      (case at (nodes s) j of Inl e \<Rightarrow> Inl e | Inr b \<Rightarrow>
         Inr (s\<lparr>nodes := (nodes s)[i := b, j := a]\<rparr>)))"

lemma parent_less: "0 < i \<Longrightarrow> parent h i < i"
  by (cases h) (auto simp: parent_def BinaryHeap_parent_def KHeap_parent_def size_t_sub_def
      drop_bit_eq_div intro: le_less_trans [OF div_le_dividend])

function heapify_up :: "('a, 'm) cls \<Rightarrow> nat \<Rightarrow> ('a, 'm) Heap_scheme \<Rightarrow> error + ('a, 'm) Heap_scheme" where
  "heapify_up c i s =
     (if 0 < i then
        (case at (nodes s) (parent (impl c) i) of Inl e \<Rightarrow> Inl e | Inr a \<Rightarrow>
         (case at (nodes s) i of Inl e \<Rightarrow> Inl e | Inr b \<Rightarrow>
          (case comp_fn c s a b of Inl e \<Rightarrow> Inl e | Inr t \<Rightarrow>
             if t then
               (case swap_nodes c i (parent (impl c) i) s of Inl e \<Rightarrow> Inl e
                | Inr s' \<Rightarrow> heapify_up c (parent (impl c) i) s')
             else Inr s)))
      else Inr s)"
  by pat_completeness auto
termination
  by (relation "measure (\<lambda>(c, i, s). i)") (auto simp: parent_less)

declare heapify_up.simps [simp del]

text \<open>
  The statement \<^verbatim>\<open>if (son < len && comp(nodes.at(comp_est), nodes.at(son))) comp_est = son;\<close>
  of both \<open>heapify_down\<close> loops, returning the new \<open>comp_est\<close>.
\<close>

definition comp_est_update ::
  "('a, 'm) cls \<Rightarrow> nat \<Rightarrow> ('a, 'm) Heap_scheme \<Rightarrow> nat \<Rightarrow> nat \<Rightarrow> error + nat" where
  "comp_est_update c len s son comp_est =
     (if son < len then
        (case at (nodes s) comp_est of Inl e \<Rightarrow> Inl e | Inr a \<Rightarrow>
         (case at (nodes s) son of Inl e \<Rightarrow> Inl e | Inr b \<Rightarrow>
          (case comp_fn c s a b of Inl e \<Rightarrow> Inl e | Inr t \<Rightarrow>
             Inr (if t then son else comp_est))))
      else Inr comp_est)"

lemma comp_est_update_cases:
  "comp_est_update c len s son ce = Inr ce' \<Longrightarrow> ce' = ce \<or> (ce' = son \<and> son < len)"
  by (auto simp: comp_est_update_def split: if_splits sum.splits)

section \<open>BinaryHeap\<close>

function BinaryHeap_heapify_down_loop ::
  "('a, 'm) cls \<Rightarrow> nat \<Rightarrow> nat \<Rightarrow> ('a, 'm) Heap_scheme \<Rightarrow> error + ('a, 'm) Heap_scheme" where
  "BinaryHeap_heapify_down_loop c len i s =
     (if \<not> BinaryHeap_is_leaf (size_h s) i then
        (case comp_est_update c len s (left i) i of Inl e \<Rightarrow> Inl e | Inr ce1 \<Rightarrow>
         (case comp_est_update c len s (right i) ce1 of Inl e \<Rightarrow> Inl e | Inr comp_est \<Rightarrow>
            if i = comp_est then Inr s
            else
              (case swap_nodes c i comp_est s of Inl e \<Rightarrow> Inl e
               | Inr s' \<Rightarrow> BinaryHeap_heapify_down_loop c len comp_est s')))
      else Inr s)"
  by pat_completeness auto
termination
proof (relation "measure (\<lambda>(c, len, i, s). len - i)", goal_cases)
  case 1
  show ?case by simp
next
  case (2 c len i s ce1 comp_est s')
  from comp_est_update_cases [OF 2(2)] comp_est_update_cases [OF 2(3)] 2(4)
  have "i < comp_est \<and> comp_est < len"
    by (auto simp: left_def right_def push_bit_eq_mult)
  then have "len - comp_est < len - i"
    by arith
  then show ?case by simp
qed

declare BinaryHeap_heapify_down_loop.simps [simp del]

definition BinaryHeap_heapify_down ::
  "('a, 'm) cls \<Rightarrow> nat \<Rightarrow> ('a, 'm) Heap_scheme \<Rightarrow> error + ('a, 'm) Heap_scheme" where
  "BinaryHeap_heapify_down c index_to_fix s =
     BinaryHeap_heapify_down_loop c (size_h s) index_to_fix s"

section \<open>KHeap\<close>

text \<open>The inner loop \<^verbatim>\<open>for (j = 0; j < K; ++j)\<close> over the values of \<open>j\<close> still to visit.\<close>

fun KHeap_sons_loop ::
  "('a, 'm) cls \<Rightarrow> nat \<Rightarrow> nat \<Rightarrow> ('a, 'm) Heap_scheme \<Rightarrow> nat \<Rightarrow> nat list \<Rightarrow> nat \<Rightarrow> error + nat" where
  "KHeap_sons_loop c K len s i [] comp_est = Inr comp_est"
| "KHeap_sons_loop c K len s i (j # js) comp_est =
     (case comp_est_update c len s (child K i j) comp_est of Inl e \<Rightarrow> Inl e
      | Inr ce \<Rightarrow> KHeap_sons_loop c K len s i js ce)"

lemma KHeap_sons_loop_cases:
  "KHeap_sons_loop c K len s i js ce = Inr ce' \<Longrightarrow>
     ce' = ce \<or> (\<exists>j \<in> set js. ce' = child K i j \<and> ce' < len)"
proof (induction js arbitrary: ce)
  case Nil
  then show ?case by simp
next
  case (Cons j js)
  then obtain ce1 where u: "comp_est_update c len s (child K i j) ce = Inr ce1"
    and r: "KHeap_sons_loop c K len s i js ce1 = Inr ce'"
    by (auto split: sum.splits)
  from comp_est_update_cases [OF u] Cons.IH [OF r] show ?case
    by auto
qed

text \<open>
  \<open>comp_est\<close> is declared before the \<^verbatim>\<open>while\<close> loop of \<open>KHeap::heapify_down\<close>, so the loop
  carries it next to \<open>i\<close>.
\<close>

function KHeap_heapify_down_loop ::
  "('a, 'm) cls \<Rightarrow> nat \<Rightarrow> nat \<Rightarrow> nat \<Rightarrow> nat \<Rightarrow> ('a, 'm) Heap_scheme \<Rightarrow> error + ('a, 'm) Heap_scheme" where
  "KHeap_heapify_down_loop c K len i comp_est s =
     (if \<not> KHeap_is_leaf K (size_h s) i then
        (case KHeap_sons_loop c K len s i [0..<K] comp_est of Inl e \<Rightarrow> Inl e | Inr ce \<Rightarrow>
           if i = ce then Inr s
           else
             (case swap_nodes c i ce s of Inl e \<Rightarrow> Inl e
              | Inr s' \<Rightarrow> KHeap_heapify_down_loop c K len ce ce s'))
      else Inr s)"
  by pat_completeness auto
termination
proof (relation "measures [\<lambda>(c, K, len, i, ce, s). if ce = i then 0 else 1,
                           \<lambda>(c, K, len, i, ce, s). len - i]", goal_cases)
  case 1
  show ?case by simp
next
  case (2 c K len i comp_est s ce s')
  have son: "i < child K i j" if "j < K" for j
    using that by (cases K) (simp_all add: child_def)
  from KHeap_sons_loop_cases [OF 2(2)] 2(3)
  have "comp_est \<noteq> i \<or> (i < ce \<and> ce < len)"
    by (auto simp: son)
  then have "comp_est \<noteq> i \<or> (comp_est = i \<and> len - ce < len - i)"
    by arith
  then show ?case by auto
qed

declare KHeap_heapify_down_loop.simps [simp del]

definition KHeap_heapify_down ::
  "('a, 'm) cls \<Rightarrow> nat \<Rightarrow> nat \<Rightarrow> ('a, 'm) Heap_scheme \<Rightarrow> error + ('a, 'm) Heap_scheme" where
  "KHeap_heapify_down c K index_to_fix s =
     KHeap_heapify_down_loop c K (size_h s) index_to_fix index_to_fix s"

section \<open>Virtual dispatch, build_heap and the public operations of Heap\<close>

definition heapify_down ::
  "('a, 'm) cls \<Rightarrow> nat \<Rightarrow> ('a, 'm) Heap_scheme \<Rightarrow> error + ('a, 'm) Heap_scheme" where
  "heapify_down c index_to_fix s =
     (case impl c of
        BinaryHeap \<Rightarrow> BinaryHeap_heapify_down c index_to_fix s
      | KHeap K \<Rightarrow> KHeap_heapify_down c K index_to_fix s)"

text \<open>The loop \<^verbatim>\<open>for (i = start; i > 0; --i) heapify_down(i - 1)\<close>.\<close>

fun build_heap_loop ::
  "('a, 'm) cls \<Rightarrow> nat \<Rightarrow> ('a, 'm) Heap_scheme \<Rightarrow> error + ('a, 'm) Heap_scheme" where
  "build_heap_loop c 0 s = Inr s"
| "build_heap_loop c (Suc n) s =
     (case heapify_down c n s of Inl e \<Rightarrow> Inl e | Inr s' \<Rightarrow> build_heap_loop c n s')"

definition build_heap :: "('a, 'm) cls \<Rightarrow> ('a, 'm) Heap_scheme \<Rightarrow> error + ('a, 'm) Heap_scheme" where
  "build_heap c s =
     (case impl c of
        BinaryHeap \<Rightarrow> build_heap_loop c (drop_bit 1 (size_h s) + 1) s
      | KHeap K \<Rightarrow> build_heap_loop c (size_h s div K + 1) s)"

definition Heap_init ::
  "bool \<Rightarrow> ('a, 'm) cls \<Rightarrow> ('a, 'm) Heap_scheme \<Rightarrow> error + ('a, 'm) Heap_scheme" where
  "Heap_init IsAlreadyHeap c s = (if \<not> IsAlreadyHeap then build_heap c s else Inr s)"

definition Heap_top :: "('a, 'm) Heap_scheme \<Rightarrow> error + 'a" where
  "Heap_top s = (if 0 < size_h s then at (nodes s) 0 else Inl assertion_failed)"

definition Heap_pop :: "('a, 'm) cls \<Rightarrow> ('a, 'm) Heap_scheme \<Rightarrow> error + ('a, 'm) Heap_scheme" where
  "Heap_pop c s =
     (if 0 < size_h s then
        heapify_down c 0 (s\<lparr>nodes := butlast ((nodes s)[0 := last (nodes s)])\<rparr>)
      else Inl assertion_failed)"

definition Heap_push :: "('a, 'm) cls \<Rightarrow> 'a \<Rightarrow> ('a, 'm) Heap_scheme \<Rightarrow> error + ('a, 'm) Heap_scheme" where
  "Heap_push c x s = heapify_up c (size_h s) (s\<lparr>nodes := nodes s @ [x]\<rparr>)"


text \<open>
  The comparator of a plain heap is \<^verbatim>\<open>std::greater<>\<close> (a min heap) or \<^verbatim>\<open>std::less<>\<close> (a max
  heap); it never fails.  The factories fix it, and \<open>KHeap\<close> carries its template constraint.
\<close>

definition well_formed :: "heap_impl \<Rightarrow> bool" where
  "well_formed h = (case h of BinaryHeap \<Rightarrow> True | KHeap K \<Rightarrow> 2 < K)"

definition Heap_class :: "heap_impl \<Rightarrow> ('a \<Rightarrow> 'a \<Rightarrow> bool) \<Rightarrow> ('a, 'm) cls" where
  "Heap_class h cmp =
     \<lparr>impl = h, comp_fn = (\<lambda>s a b. Inr (cmp a b)), swap_nodes = Heap_swap_nodes\<rparr>"

definition Heap_new ::
  "heap_impl \<Rightarrow> bool \<Rightarrow> 'a list \<Rightarrow> ('a \<Rightarrow> 'a \<Rightarrow> bool) \<Rightarrow> error + 'a Heap" where
  "Heap_new h IsAlreadyHeap inputs cmp =
     (if well_formed h then Heap_init IsAlreadyHeap (Heap_class h cmp) \<lparr>nodes = inputs\<rparr>
      else Inl ill_formed)"

definition make_min_heap :: "bool \<Rightarrow> ('a::linorder) list \<Rightarrow> error + 'a Heap" where
  "make_min_heap IsAlreadyHeap inputs = Heap_new BinaryHeap IsAlreadyHeap inputs (\<lambda>a b. a > b)"

definition make_max_heap :: "bool \<Rightarrow> ('a::linorder) list \<Rightarrow> error + 'a Heap" where
  "make_max_heap IsAlreadyHeap inputs = Heap_new BinaryHeap IsAlreadyHeap inputs (\<lambda>a b. a < b)"

definition make_min_k_heap :: "nat \<Rightarrow> bool \<Rightarrow> ('a::linorder) list \<Rightarrow> error + 'a Heap" where
  "make_min_k_heap K IsAlreadyHeap inputs = Heap_new (KHeap K) IsAlreadyHeap inputs (\<lambda>a b. a > b)"

definition make_max_k_heap :: "nat \<Rightarrow> bool \<Rightarrow> ('a::linorder) list \<Rightarrow> error + 'a Heap" where
  "make_max_k_heap K IsAlreadyHeap inputs = Heap_new (KHeap K) IsAlreadyHeap inputs (\<lambda>a b. a < b)"

text \<open>
  The loop of the examples and tests on a plain heap,
  \<^verbatim>\<open>while (!heap.empty()) { heap.top(); heap.pop(); }\<close>, collecting the tops; \<open>Heap_pop_order\<close>
  gives it one round for each element.
\<close>

fun Heap_pop_loop :: "('a, 'm) cls \<Rightarrow> nat \<Rightarrow> ('a, 'm) Heap_scheme \<Rightarrow> error + 'a list" where
  "Heap_pop_loop c 0 s = Inr []"
| "Heap_pop_loop c (Suc n) s =
     (if empty_h s then Inr []
      else
        (case Heap_top s of Inl e \<Rightarrow> Inl e | Inr x \<Rightarrow>
         (case Heap_pop c s of Inl e \<Rightarrow> Inl e | Inr s' \<Rightarrow>
          (case Heap_pop_loop c n s' of Inl e \<Rightarrow> Inl e | Inr rest \<Rightarrow> Inr (x # rest)))))"

definition Heap_pop_order :: "('a, 'm) cls \<Rightarrow> error + ('a, 'm) Heap_scheme \<Rightarrow> error + 'a list" where
  "Heap_pop_order c q =
     (case q of Inl e \<Rightarrow> Inl e | Inr s \<Rightarrow> Heap_pop_loop c (size_h s) s)"

text \<open>The loop \<^verbatim>\<open>for (const auto& v : test_vector) heap.push(v);\<close> of the tests.\<close>

fun Heap_push_all ::
  "('a, 'm) cls \<Rightarrow> 'a list \<Rightarrow> ('a, 'm) Heap_scheme \<Rightarrow> error + ('a, 'm) Heap_scheme" where
  "Heap_push_all c [] s = Inr s"
| "Heap_push_all c (v # vs) s =
     (case Heap_push c v s of Inl e \<Rightarrow> Inl e | Inr s' \<Rightarrow> Heap_push_all c vs s')"

section \<open>PriorityQueue\<close>

record ('a, 'k) PriorityQueue = "'a Heap" +
  key_map :: "'a \<rightharpoonup> 'k"
  index_map :: "'a \<rightharpoonup> nat"

type_synonym ('a, 'k) pq = "('a, 'k) PriorityQueue"

type_synonym ('a, 'k) pq_cls = "('a, ('a, 'k) PriorityQueue) heap_class"

definition build_key_map :: "'k list \<Rightarrow> 'a list \<Rightarrow> error + ('a \<rightharpoonup> 'k)" where
  "build_key_map keys node_list =
     (if length keys = length node_list then
        Inr (fold (\<lambda>(index, node) m. m(node \<mapsto> keys ! index)) (enumerate 0 node_list) Map.empty)
      else Inl assertion_failed)"

definition build_index_map :: "'a list \<Rightarrow> ('a \<rightharpoonup> nat)" where
  "build_index_map node_list =
     fold (\<lambda>(index, node) m. m(node \<mapsto> index)) (enumerate 0 node_list) Map.empty"

definition min_heap_comp_factory :: "('a, 'k::linorder) pq \<Rightarrow> 'a \<Rightarrow> 'a \<Rightarrow> error + bool" where
  "min_heap_comp_factory s a b =
     (case map_at (key_map s) a of Inl e \<Rightarrow> Inl e | Inr ka \<Rightarrow>
      (case map_at (key_map s) b of Inl e \<Rightarrow> Inl e | Inr kb \<Rightarrow> Inr (ka > kb)))"

definition max_heap_comp_factory :: "('a, 'k::linorder) pq \<Rightarrow> 'a \<Rightarrow> 'a \<Rightarrow> error + bool" where
  "max_heap_comp_factory s a b =
     (case map_at (key_map s) a of Inl e \<Rightarrow> Inl e | Inr ka \<Rightarrow>
      (case map_at (key_map s) b of Inl e \<Rightarrow> Inl e | Inr kb \<Rightarrow> Inr (ka < kb)))"

definition PriorityQueue_swap_nodes :: "nat \<Rightarrow> nat \<Rightarrow> ('a, 'k) pq \<Rightarrow> error + ('a, 'k) pq" where
  "PriorityQueue_swap_nodes i j s =
     (case at (nodes s) i of Inl e \<Rightarrow> Inl e | Inr node_i \<Rightarrow>
      (case at (nodes s) j of Inl e \<Rightarrow> Inl e | Inr node_j \<Rightarrow>
       (case map_at (index_map s) node_i of Inl e \<Rightarrow> Inl e | Inr index_i \<Rightarrow>
        (case map_at (index_map s) node_j of Inl e \<Rightarrow> Inl e | Inr index_j \<Rightarrow>
           Heap_swap_nodes i j
             (s\<lparr>index_map := (index_map s)(node_i \<mapsto> index_j, node_j \<mapsto> index_i)\<rparr>)))))"

text \<open>
  The class of a priority queue: the heap it derives from, the comparator its factory
  passes for the template argument \<open>HeapType\<close>, and the overriding \<open>swap_nodes\<close>.
\<close>

definition PriorityQueue_class :: "heap_impl \<Rightarrow> Type \<Rightarrow> ('a, 'k::linorder) pq_cls" where
  "PriorityQueue_class h HeapType =
     \<lparr>impl = h,
      comp_fn = (case HeapType of min_heap \<Rightarrow> min_heap_comp_factory
                 | max_heap \<Rightarrow> max_heap_comp_factory),
      swap_nodes = PriorityQueue_swap_nodes\<rparr>"

text \<open>The member initialisers of the constructor, before \<open>init\<close> runs.\<close>

definition PriorityQueue_members :: "'k list \<Rightarrow> 'a list \<Rightarrow> error + ('a, 'k) pq" where
  "PriorityQueue_members keys inputs =
     (case build_key_map keys inputs of Inl e \<Rightarrow> Inl e
      | Inr km \<Rightarrow> Inr \<lparr>nodes = inputs, key_map = km, index_map = build_index_map inputs\<rparr>)"

definition PriorityQueue_new ::
  "heap_impl \<Rightarrow> Type \<Rightarrow> bool \<Rightarrow> 'k list \<Rightarrow> 'a list \<Rightarrow> error + ('a, 'k::linorder) pq" where
  "PriorityQueue_new h HeapType IsAlreadyHeap keys inputs =
     (if well_formed h then
        (case PriorityQueue_members keys inputs of Inl e \<Rightarrow> Inl e
         | Inr s \<Rightarrow> Heap_init IsAlreadyHeap (PriorityQueue_class h HeapType) s)
      else Inl ill_formed)"

definition make_min_priority_queue ::
  "bool \<Rightarrow> 'k list \<Rightarrow> 'a list \<Rightarrow> error + ('a, 'k::linorder) pq" where
  "make_min_priority_queue IsAlreadyHeap keys inputs =
     PriorityQueue_new BinaryHeap min_heap IsAlreadyHeap keys inputs"

definition make_max_priority_queue ::
  "bool \<Rightarrow> 'k list \<Rightarrow> 'a list \<Rightarrow> error + ('a, 'k::linorder) pq" where
  "make_max_priority_queue IsAlreadyHeap keys inputs =
     PriorityQueue_new BinaryHeap max_heap IsAlreadyHeap keys inputs"

definition make_min_k_priority_queue ::
  "nat \<Rightarrow> bool \<Rightarrow> 'k list \<Rightarrow> 'a list \<Rightarrow> error + ('a, 'k::linorder) pq" where
  "make_min_k_priority_queue K IsAlreadyHeap keys inputs =
     PriorityQueue_new (KHeap K) min_heap IsAlreadyHeap keys inputs"

definition make_max_k_priority_queue ::
  "nat \<Rightarrow> bool \<Rightarrow> 'k list \<Rightarrow> 'a list \<Rightarrow> error + ('a, 'k::linorder) pq" where
  "make_max_k_priority_queue K IsAlreadyHeap keys inputs =
     PriorityQueue_new (KHeap K) max_heap IsAlreadyHeap keys inputs"

definition push :: "heap_impl \<Rightarrow> Type \<Rightarrow> 'k \<Rightarrow> 'a \<Rightarrow> ('a, 'k::linorder) pq \<Rightarrow> error + ('a, 'k) pq" where
  "push h HeapType key element s =
     Heap_push (PriorityQueue_class h HeapType) element
       (s\<lparr>index_map := (index_map s)(element \<mapsto> size_h s),
          key_map := (key_map s)(element \<mapsto> key)\<rparr>)"

definition update_key ::
  "heap_impl \<Rightarrow> Type \<Rightarrow> 'k \<Rightarrow> 'a \<Rightarrow> ('a, 'k::linorder) pq \<Rightarrow> error + ('a, 'k) pq" where
  "update_key h HeapType key element s =
     (case map_at (index_map s) element of Inl e \<Rightarrow> Inl e | Inr index_to_fix \<Rightarrow>
      (case map_at (key_map s) element of Inl e \<Rightarrow> Inl e | Inr old \<Rightarrow>
         (if HeapType = min_heap then
            heapify_up (PriorityQueue_class h HeapType) index_to_fix
              (s\<lparr>key_map := (key_map s)(element \<mapsto> key)\<rparr>)
          else
            heapify_down (PriorityQueue_class h HeapType) index_to_fix
              (s\<lparr>key_map := (key_map s)(element \<mapsto> key)\<rparr>))))"

definition key_at :: "('a, 'k) pq \<Rightarrow> 'a \<Rightarrow> error + 'k" where
  "key_at s element = map_at (key_map s) element"

definition contains :: "('a, 'k) pq \<Rightarrow> 'a \<Rightarrow> bool" where
  "contains s element = (index_map s element \<noteq> None)"

definition top :: "('a, 'k) pq \<Rightarrow> error + 'a" where
  "top s = Heap_top s"

definition top_key_value :: "('a, 'k) pq \<Rightarrow> error + ('k \<times> 'a)" where
  "top_key_value s =
     (case Heap_top s of Inl e \<Rightarrow> Inl e | Inr top_value \<Rightarrow>
      (case key_at s top_value of Inl e \<Rightarrow> Inl e | Inr top_key \<Rightarrow> Inr (top_key, top_value)))"

definition pop :: "heap_impl \<Rightarrow> Type \<Rightarrow> ('a, 'k::linorder) pq \<Rightarrow> error + ('a, 'k) pq" where
  "pop h HeapType s =
     (if 0 < size_h s then
        (case at (nodes s) 0 of Inl e \<Rightarrow> Inl e | Inr node \<Rightarrow>
           (let s1 = s\<lparr>index_map := (index_map s)(node := None),
                        key_map := (key_map s)(node := None)\<rparr>;
                s2 = s1\<lparr>nodes := butlast ((nodes s1)[0 := last (nodes s1)])\<rparr>
            in if 0 < size_h s2 then
                 (case map_at (index_map s2) (hd (nodes s2)) of Inl e \<Rightarrow> Inl e
                  | Inr old \<Rightarrow>
                      heapify_down (PriorityQueue_class h HeapType) 0
                        (s2\<lparr>index_map := (index_map s2)(hd (nodes s2) \<mapsto> 0)\<rparr>))
               else Inr s2))
      else Inl assertion_failed)"

text \<open>
  The loop of the examples, \<^verbatim>\<open>while (!pq.empty()) { pq.top_key_value(); pq.pop(); }\<close>,
  collecting what it prints.  It runs at most \<open>n\<close> times; \<open>pop_order\<close> gives it the size of
  the queue, one round for each element.
\<close>

fun pop_loop ::
  "heap_impl \<Rightarrow> Type \<Rightarrow> nat \<Rightarrow> ('a, 'k::linorder) pq \<Rightarrow> error + ('k \<times> 'a) list" where
  "pop_loop h HeapType 0 s = Inr []"
| "pop_loop h HeapType (Suc n) s =
     (if empty_h s then Inr []
      else
        (case top_key_value s of Inl e \<Rightarrow> Inl e | Inr kv \<Rightarrow>
         (case pop h HeapType s of Inl e \<Rightarrow> Inl e | Inr s' \<Rightarrow>
          (case pop_loop h HeapType n s' of Inl e \<Rightarrow> Inl e | Inr rest \<Rightarrow> Inr (kv # rest)))))"

definition pop_order ::
  "heap_impl \<Rightarrow> Type \<Rightarrow> error + ('a, 'k::linorder) pq \<Rightarrow> error + ('k \<times> 'a) list" where
  "pop_order h HeapType q =
     (case q of Inl e \<Rightarrow> Inl e | Inr s \<Rightarrow> pop_loop h HeapType (size_h s) s)"

section \<open>The invariants of the specification\<close>

text \<open>
  The heap property as the specification words it: the comparator of the class, applied to
  a parent and its child, answers false.
\<close>

definition heap_property :: "('a, 'm) cls \<Rightarrow> ('a, 'm) Heap_scheme \<Rightarrow> bool" where
  "heap_property c s \<longleftrightarrow>
     (\<forall>i. 0 < i \<and> i < size_h s \<longrightarrow>
        comp_fn c s (nodes s ! parent (impl c) i) (nodes s ! i) = Inr False)"

definition maps_consistent :: "('a, 'k) pq \<Rightarrow> bool" where
  "maps_consistent s \<longleftrightarrow>
     distinct (nodes s) \<and>
     dom (key_map s) = set (nodes s) \<and> dom (index_map s) = set (nodes s) \<and>
     card (dom (key_map s)) = size_h s \<and> card (dom (index_map s)) = size_h s \<and>
     (\<forall>i < size_h s. index_map s (nodes s ! i) = Some i)"

section \<open>Definitions for the proofs\<close>

text \<open>
  Strict weak orders, the heap property of a list from a position on, the invariants of the
  two sifting loops, the sons of a position, and the best of a node and its sons.
\<close>

definition strict_weak :: "('a \<Rightarrow> 'a \<Rightarrow> bool) \<Rightarrow> bool" where
  "strict_weak R \<longleftrightarrow>
     (\<forall>a. \<not> R a a) \<and> (\<forall>a b c. R a b \<longrightarrow> R b c \<longrightarrow> R a c) \<and>
     (\<forall>a b c. \<not> R a b \<longrightarrow> \<not> R b c \<longrightarrow> \<not> R a c)"

definition heap_from :: "heap_impl \<Rightarrow> ('a \<Rightarrow> 'a \<Rightarrow> bool) \<Rightarrow> nat \<Rightarrow> 'a list \<Rightarrow> bool" where
  "heap_from h R lo xs \<longleftrightarrow>
     (\<forall>j. 0 < j \<and> j < length xs \<and> lo \<le> parent h j \<longrightarrow> \<not> R (xs ! parent h j) (xs ! j))"

definition down_inv :: "heap_impl \<Rightarrow> ('a \<Rightarrow> 'a \<Rightarrow> bool) \<Rightarrow> nat \<Rightarrow> nat \<Rightarrow> 'a list \<Rightarrow> bool" where
  "down_inv h R lo i xs \<longleftrightarrow>
     (\<forall>j. 0 < j \<and> j < length xs \<and> lo \<le> parent h j \<and> parent h j \<noteq> i \<longrightarrow>
        \<not> R (xs ! parent h j) (xs ! j)) \<and>
     (0 < i \<and> lo \<le> parent h i \<longrightarrow>
        (\<forall>j. 0 < j \<and> j < length xs \<and> parent h j = i \<longrightarrow> \<not> R (xs ! parent h i) (xs ! j)))"

definition up_inv :: "heap_impl \<Rightarrow> ('a \<Rightarrow> 'a \<Rightarrow> bool) \<Rightarrow> nat \<Rightarrow> 'a list \<Rightarrow> bool" where
  "up_inv h R i xs \<longleftrightarrow>
     (\<forall>j. 0 < j \<and> j < length xs \<and> j \<noteq> i \<longrightarrow> \<not> R (xs ! parent h j) (xs ! j)) \<and>
     (0 < i \<longrightarrow>
        (\<forall>j. 0 < j \<and> j < length xs \<and> parent h j = i \<longrightarrow> \<not> R (xs ! parent h i) (xs ! j)))"

definition sons :: "heap_impl \<Rightarrow> nat \<Rightarrow> nat list" where
  "sons h i = (case h of BinaryHeap \<Rightarrow> [left i, right i] | KHeap K \<Rightarrow> map (child K i) [0..<K])"

definition best :: "('a \<Rightarrow> 'a \<Rightarrow> bool) \<Rightarrow> 'a list \<Rightarrow> nat list \<Rightarrow> nat \<Rightarrow> nat" where
  "best R xs ss ce =
     fold (\<lambda>son ce. if son < length xs \<and> R (xs ! ce) (xs ! son) then son else ce) ss ce"

text \<open>
  What the algorithms need of a class: on the objects that satisfy \<open>P\<close> the comparator
  answers as the relation \<open>R\<close> and never fails, and \<open>swap_nodes\<close> exchanges two positions of
  \<open>nodes\<close> and keeps \<open>P\<close>.
\<close>

definition comp_ok ::
  "('a, 'm) cls \<Rightarrow> (('a, 'm) Heap_scheme \<Rightarrow> bool) \<Rightarrow> ('a \<Rightarrow> 'a \<Rightarrow> bool) \<Rightarrow> bool" where
  "comp_ok c P R \<longleftrightarrow>
     (\<forall>s a b. P s \<longrightarrow> a \<in> set (nodes s) \<longrightarrow> b \<in> set (nodes s) \<longrightarrow> comp_fn c s a b = Inr (R a b))"

definition swap_ok :: "('a, 'm) cls \<Rightarrow> (('a, 'm) Heap_scheme \<Rightarrow> bool) \<Rightarrow> bool" where
  "swap_ok c P \<longleftrightarrow>
     (\<forall>s i j. P s \<longrightarrow> i < length (nodes s) \<longrightarrow> j < length (nodes s) \<longrightarrow>
        (\<exists>s'. swap_nodes c i j s = Inr s' \<and> P s' \<and>
              nodes s' = (nodes s)[i := nodes s ! j, j := nodes s ! i]))"

text \<open>
  The comparators of the two factories, on keys and on the elements of a key map; \<open>PQ_inv\<close>
  is the consistency of the maps together with the key map the queue holds.
\<close>

definition key_comp :: "Type \<Rightarrow> 'k::linorder \<Rightarrow> 'k \<Rightarrow> bool" where
  "key_comp T ka kb = (case T of min_heap \<Rightarrow> kb < ka | max_heap \<Rightarrow> ka < kb)"

definition elem_comp :: "Type \<Rightarrow> ('a \<rightharpoonup> 'k::linorder) \<Rightarrow> 'a \<Rightarrow> 'a \<Rightarrow> bool" where
  "elem_comp T km a b = key_comp T (the (km a)) (the (km b))"

definition PQ_inv :: "('a \<rightharpoonup> 'k) \<Rightarrow> ('a, 'k) pq \<Rightarrow> bool" where
  "PQ_inv km s \<longleftrightarrow> maps_consistent s \<and> key_map s = km"

section \<open>Orderings and the heap property on lists\<close>

lemma sw_irrefl: "strict_weak R \<Longrightarrow> \<not> R a a"
  by (simp add: strict_weak_def)

lemma sw_asym: "strict_weak R \<Longrightarrow> R a b \<Longrightarrow> \<not> R b a"
  unfolding strict_weak_def by blast

lemma sw_negtrans: "strict_weak R \<Longrightarrow> \<not> R a b \<Longrightarrow> \<not> R b c \<Longrightarrow> \<not> R a c"
  unfolding strict_weak_def by blast

lemma sw_mix: "strict_weak R \<Longrightarrow> R a b \<Longrightarrow> \<not> R a c \<Longrightarrow> \<not> R b c"
  unfolding strict_weak_def by blast

lemma best_Nil [simp]: "best R xs [] ce = ce"
  by (simp add: best_def)

lemma best_Cons:
  "best R xs (s # ss) ce =
     best R xs ss (if s < length xs \<and> R (xs ! ce) (xs ! s) then s else ce)"
  by (simp add: best_def)

lemma best_cases: "best R xs ss ce = ce \<or> (best R xs ss ce \<in> set ss \<and> best R xs ss ce < length xs)"
proof (induction ss arbitrary: ce)
  case Nil
  show ?case by simp
next
  case (Cons s ss)
  from Cons.IH [of "if s < length xs \<and> R (xs ! ce) (xs ! s) then s else ce"]
  show ?case
    by (auto simp: best_Cons split: if_splits)
qed

lemma best_mono:
  "strict_weak R \<Longrightarrow> \<not> R (xs ! ce) y \<Longrightarrow> \<not> R (xs ! best R xs ss ce) y"
proof (induction ss arbitrary: ce)
  case Nil
  then show ?case by simp
next
  case (Cons s ss)
  show ?case
    unfolding best_Cons
    by (rule Cons.IH [OF Cons.prems(1)]) (use Cons.prems in \<open>auto dest: sw_mix\<close>)
qed

lemma best_sons:
  "strict_weak R \<Longrightarrow> s \<in> set ss \<Longrightarrow> s < length xs \<Longrightarrow> \<not> R (xs ! best R xs ss ce) (xs ! s)"
proof (induction ss arbitrary: ce)
  case Nil
  then show ?case by simp
next
  case (Cons a ss)
  show ?case
  proof (cases "s = a")
    case True
    have "\<not> R (xs ! (if a < length xs \<and> R (xs ! ce) (xs ! a) then a else ce)) (xs ! a)"
      using Cons.prems True by (auto simp: sw_irrefl)
    from best_mono [OF Cons.prems(1) this] True show ?thesis
      by (simp add: best_Cons)
  next
    case False
    with Cons.prems have "s \<in> set ss" by simp
    from Cons.IH [OF Cons.prems(1) this Cons.prems(3)] show ?thesis
      by (simp add: best_Cons)
  qed
qed

lemma best_self: "strict_weak R \<Longrightarrow> \<not> R (xs ! best R xs ss i) (xs ! i)"
  by (rule best_mono) (simp_all add: sw_irrefl)

lemma best_out_of_range: "\<forall>s \<in> set ss. length xs \<le> s \<Longrightarrow> best R xs ss ce = ce"
  by (induction ss arbitrary: ce) (auto simp: best_Cons)

subsection \<open>Parents and sons\<close>

lemma left_eq: "left i = 2 * i + 1" and right_eq: "right i = 2 * i + 2"
  by (simp_all add: left_def right_def push_bit_eq_mult)

lemma parent_Binary: "0 < j \<Longrightarrow> parent BinaryHeap j = (j - 1) div 2"
  by (simp add: parent_def BinaryHeap_parent_def size_t_sub_def drop_bit_eq_div)

lemma parent_KHeap: "0 < j \<Longrightarrow> parent (KHeap K) j = (j - 1) div K"
  by (simp add: parent_def KHeap_parent_def size_t_sub_def)

lemma sons_greater: "j \<in> set (sons h i) \<Longrightarrow> i < j"
proof (cases h)
  case BinaryHeap
  assume "j \<in> set (sons h i)"
  with BinaryHeap show ?thesis by (auto simp: sons_def left_eq right_eq)
next
  case (KHeap K)
  assume "j \<in> set (sons h i)"
  with KHeap obtain k where k: "k < K" "j = K * i + k + 1"
    by (auto simp: sons_def child_def)
  then have "i \<le> K * i" by (cases K) simp_all
  with k show ?thesis by linarith
qed

lemma sons_parent:
  assumes "well_formed h" "0 < j"
  shows "parent h j = i \<longleftrightarrow> j \<in> set (sons h i)"
proof (cases h)
  case BinaryHeap
  with assms show ?thesis
    by (auto simp: parent_Binary sons_def left_eq right_eq)
next
  case (KHeap K)
  with assms have K: "0 < K" by (simp add: well_formed_def)
  show ?thesis
  proof
    assume "parent h j = i"
    with KHeap assms have i: "i = (j - 1) div K" by (simp add: parent_KHeap)
    have "j - 1 = K * i + (j - 1) mod K" by (simp add: i)
    with assms(2) have "j = child K i ((j - 1) mod K)" by (simp add: child_def)
    moreover from K have "(j - 1) mod K < K" by simp
    ultimately show "j \<in> set (sons h i)"
      using KHeap by (auto simp: sons_def)
  next
    assume "j \<in> set (sons h i)"
    with KHeap obtain k where k: "k < K" "j = K * i + k + 1"
      by (auto simp: sons_def child_def)
    then have "(j - 1) div K = i" by simp
    with KHeap assms show "parent h j = i" by (simp add: parent_KHeap)
  qed
qed


subsection \<open>One round of sifting, on lists\<close>

lemma sift_done:
  assumes sw: "strict_weak R" and wf: "well_formed h"
    and inv: "down_inv h R lo i xs"
    and b: "best R xs (sons h i) i = i"
  shows "heap_from h R lo xs"
  unfolding heap_from_def
proof (intro allI impI)
  fix j
  assume j: "0 < j \<and> j < length xs \<and> lo \<le> parent h j"
  show "\<not> R (xs ! parent h j) (xs ! j)"
  proof (cases "parent h j = i")
    case True
    with wf j have "j \<in> set (sons h i)" by (simp add: sons_parent)
    from best_sons [OF sw this, of xs i] j b True show ?thesis by simp
  next
    case False
    with inv j show ?thesis by (simp add: down_inv_def)
  qed
qed

lemma sift_swap:
  assumes sw: "strict_weak R" and wf: "well_formed h"
    and inv: "down_inv h R lo i xs"
    and c: "c = best R xs (sons h i) i" and ne: "c \<noteq> i"
  shows "down_inv h R lo c (xs[i := xs ! c, c := xs ! i])"
proof -
  let ?ys = "xs[i := xs ! c, c := xs ! i]"
  from best_cases [of R xs "sons h i" i] c ne
  have cs: "c \<in> set (sons h i)" and cn: "c < length xs" by auto
  from sons_greater [OF cs] have ic: "i < c" .
  then have c0: "0 < c" by simp
  from ic cn have "i < length xs" by simp
  from sons_parent [OF wf c0, of i] cs have pc: "parent h c = i" by simp
  have ci: "\<not> R (xs ! c) (xs ! i)"
    unfolding c by (rule best_self [OF sw])
  have cson: "\<not> R (xs ! c) (xs ! j)" if "0 < j" "j < length xs" "parent h j = i" for j
  proof -
    from sons_parent [OF wf that(1), of i] that(3) have "j \<in> set (sons h i)" by simp
    from best_sons [OF sw this that(2), of i] show ?thesis by (simp add: c)
  qed
  have nth: "?ys ! k = (if k = c then xs ! i else if k = i then xs ! c else xs ! k)"
    if "k < length xs" for k
    using that \<open>i < length xs\<close> cn by (simp add: nth_list_update)
  have one: "\<not> R (?ys ! parent h j) (?ys ! j)"
    if j: "0 < j" "j < length xs" "lo \<le> parent h j" "parent h j \<noteq> c" for j
  proof -
    from parent_less [OF j(1), of h] j(2) have pl: "parent h j < j" "parent h j < length xs"
      by simp_all
    show ?thesis
    proof (cases "parent h j = i")
      case True
      with pl have "j \<noteq> i" by simp
      show ?thesis
      proof (cases "j = c")
        case True
        with \<open>parent h j = i\<close> ci ne j pl show ?thesis by (simp add: nth)
      next
        case False
        with \<open>parent h j = i\<close> \<open>j \<noteq> i\<close> cson [OF j(1) j(2)] ne j pl show ?thesis
          by (simp add: nth)
      qed
    next
      case False
      show ?thesis
      proof (cases "j = i")
        case True
        with inv j c0 cn pc have "\<not> R (xs ! parent h i) (xs ! c)"
          by (simp add: down_inv_def)
        with True False j pl ne show ?thesis by (simp add: nth)
      next
        case ji: False
        from False pc have "j \<noteq> c" by auto
        from inv j False have "\<not> R (xs ! parent h j) (xs ! j)"
          by (simp add: down_inv_def)
        with False ji \<open>j \<noteq> c\<close> j pl show ?thesis by (simp add: nth)
      qed
    qed
  qed
  have two: "\<not> R (?ys ! parent h c) (?ys ! j)"
    if j: "0 < j" "j < length xs" "parent h j = c" and lo: "lo \<le> parent h c" for j
  proof -
    from parent_less [OF j(1), of h] j(3) have "c < j" by simp
    with ic have jn: "j \<noteq> c" "j \<noteq> i" by simp_all
    from lo pc ic have "lo \<le> parent h j" by (simp add: j(3))
    with inv j ne have "\<not> R (xs ! c) (xs ! j)" unfolding down_inv_def by blast
    with jn pc j \<open>i < length xs\<close> ne show ?thesis by (simp add: nth)
  qed
  show ?thesis
    unfolding down_inv_def using one two by simp
qed

lemma up_done:
  assumes "up_inv h R i xs" and "i = 0 \<or> \<not> R (xs ! parent h i) (xs ! i)"
  shows "heap_from h R 0 xs"
  using assms unfolding up_inv_def heap_from_def by (metis less_numeral_extra(3))

lemma up_swap:
  assumes sw: "strict_weak R" and inv: "up_inv h R i xs"
    and i: "0 < i" "i < length xs" and r: "R (xs ! parent h i) (xs ! i)"
  shows "up_inv h R (parent h i) (xs[i := xs ! parent h i, parent h i := xs ! i])"
proof -
  let ?p = "parent h i"
  let ?ys = "xs[i := xs ! ?p, ?p := xs ! i]"
  from parent_less [OF i(1), of h] i(2) have p: "?p < i" "?p < length xs" by simp_all
  have nth: "?ys ! k = (if k = ?p then xs ! i else if k = i then xs ! ?p else xs ! k)"
    if "k < length xs" for k
    using that i p by (simp add: nth_list_update)
  have old: "\<not> R (xs ! parent h j) (xs ! j)" if "0 < j" "j < length xs" "j \<noteq> i" for j
    using inv that by (simp add: up_inv_def)
  have old2: "\<not> R (xs ! ?p) (xs ! j)" if "0 < j" "j < length xs" "parent h j = i" for j
    using inv that i by (simp add: up_inv_def)
  have one: "\<not> R (?ys ! parent h j) (?ys ! j)"
    if j: "0 < j" "j < length xs" "j \<noteq> ?p" for j
  proof -
    from parent_less [OF j(1), of h] j(2) have pl: "parent h j < j" "parent h j < length xs"
      by simp_all
    show ?thesis
    proof (cases "j = i")
      case True
      with sw_asym [OF sw r] p i show ?thesis by (simp add: nth)
    next
      case False
      consider "parent h j = i" | "parent h j = ?p" | "parent h j \<noteq> i" "parent h j \<noteq> ?p"
        by blast
      then show ?thesis
      proof cases
        case 1
        with old2 [OF j(1) j(2)] False j p pl show ?thesis by (simp add: nth)
      next
        case 2
        from sw_mix [OF sw r] old [OF j(1) j(2) False] 2
        have "\<not> R (xs ! i) (xs ! j)" by simp
        with 2 False j p pl show ?thesis by (simp add: nth)
      next
        case 3
        with old [OF j(1) j(2) False] False j pl show ?thesis by (simp add: nth)
      qed
    qed
  qed
  have two: "\<not> R (?ys ! parent h ?p) (?ys ! j)"
    if j: "0 < j" "j < length xs" "parent h j = ?p" and p0: "0 < ?p" for j
  proof -
    from parent_less [OF p0, of h] p
    have pp: "parent h ?p < ?p" "parent h ?p < length xs" "parent h ?p \<noteq> i" by simp_all
    from parent_less [OF j(1), of h] j(3) have jp: "j \<noteq> ?p" by simp
    from old [OF p0 p(2)] p have a: "\<not> R (xs ! parent h ?p) (xs ! ?p)" by simp
    show ?thesis
    proof (cases "j = i")
      case True
      with a pp p i show ?thesis by (simp add: nth)
    next
      case False
      from sw_negtrans [OF sw a] old [OF j(1) j(2) False] j(3)
      have "\<not> R (xs ! parent h ?p) (xs ! j)" by simp
      with False jp pp j show ?thesis by (simp add: nth)
    qed
  qed
  show ?thesis
    unfolding up_inv_def using one two by simp
qed

subsection \<open>Leaves have no son in range\<close>

lemma is_leaf_Binary: "BinaryHeap_is_leaf n i \<Longrightarrow> j \<in> set (sons BinaryHeap i) \<Longrightarrow> n \<le> j"
  by (auto simp: BinaryHeap_is_leaf_def sons_def left_eq right_eq drop_bit_eq_div)

lemma is_leaf_KHeap:
  assumes "KHeap_is_leaf K n i" "j \<in> set (sons (KHeap K) i)"
  shows "n \<le> j"
proof (cases "2 \<le> n")
  case True
  from assms(2) obtain k where k: "k < K" "j = K * i + k + 1"
    by (auto simp: sons_def child_def)
  from assms(1) True have "(n - 2) div K < i"
    by (simp add: KHeap_is_leaf_def size_t_sub_def)
  then have "Suc ((n - 2) div K) \<le> i" by simp
  then have "K * Suc ((n - 2) div K) \<le> K * i" by (rule mult_le_mono2)
  moreover have "n - 2 < K * Suc ((n - 2) div K)"
    using k(1) by (simp add: dividend_less_times_div mult.commute)
  ultimately have "n - 2 < K * i" by simp
  with True k show ?thesis by simp
next
  case False
  from sons_greater [OF assms(2)] False show ?thesis by simp
qed

section \<open>The algorithms on a class that meets the contract\<close>

lemma at_in_range [simp]: "i < length xs \<Longrightarrow> at xs i = Inr (xs ! i)"
  by (simp add: at_def)

lemma at_out_of_range [simp]: "\<not> i < length xs \<Longrightarrow> at xs i = Inl out_of_range"
  by (simp add: at_def)

lemma comp_okD:
  "comp_ok c P R \<Longrightarrow> P s \<Longrightarrow> i < length (nodes s) \<Longrightarrow> j < length (nodes s) \<Longrightarrow>
     comp_fn c s (nodes s ! i) (nodes s ! j) = Inr (R (nodes s ! i) (nodes s ! j))"
  by (simp add: comp_ok_def)

lemma swap_okD:
  "swap_ok c P \<Longrightarrow> P s \<Longrightarrow> i < length (nodes s) \<Longrightarrow> j < length (nodes s) \<Longrightarrow>
     \<exists>s'. swap_nodes c i j s = Inr s' \<and> P s' \<and>
          nodes s' = (nodes s)[i := nodes s ! j, j := nodes s ! i]"
  by (simp add: swap_ok_def)

lemma comp_est_update_best:
  assumes "comp_ok c P R" "P s" "son < length (nodes s) \<longrightarrow> ce < length (nodes s)"
  shows "comp_est_update c (length (nodes s)) s son ce =
           Inr (if son < length (nodes s) \<and> R (nodes s ! ce) (nodes s ! son) then son else ce)"
  using assms by (simp add: comp_est_update_def comp_okD)

lemma KHeap_sons_loop_best:
  assumes "comp_ok c P R" "P s"
  shows "(\<forall>j \<in> set js. child K i j < length (nodes s) \<longrightarrow> ce < length (nodes s)) \<Longrightarrow>
     KHeap_sons_loop c K (length (nodes s)) s i js ce =
       Inr (best R (nodes s) (map (child K i) js) ce)"
proof (induction js arbitrary: ce)
  case Nil
  show ?case by simp
next
  case (Cons j js)
  let ?ce = "if child K i j < length (nodes s) \<and> R (nodes s ! ce) (nodes s ! child K i j)
             then child K i j else ce"
  from Cons.prems have "child K i j < length (nodes s) \<longrightarrow> ce < length (nodes s)"
    by simp
  from comp_est_update_best [OF assms this]
  have u: "comp_est_update c (length (nodes s)) s (child K i j) ce = Inr ?ce" .
  have "\<forall>j \<in> set js. child K i j < length (nodes s) \<longrightarrow> ?ce < length (nodes s)"
    using Cons.prems by auto
  from Cons.IH [OF this] u show ?case
    by (simp add: best_Cons)
qed

lemma Binary_select_best:
  assumes "comp_ok c P R" "P s"
  shows "\<exists>ce1. comp_est_update c (length (nodes s)) s (left i) i = Inr ce1 \<and>
           comp_est_update c (length (nodes s)) s (right i) ce1 =
             Inr (best R (nodes s) (sons BinaryHeap i) i)"
proof -
  let ?n = "length (nodes s)"
  let ?ce1 = "if left i < ?n \<and> R (nodes s ! i) (nodes s ! left i) then left i else i"
  have "left i < ?n \<longrightarrow> i < ?n" by (simp add: left_eq)
  from comp_est_update_best [OF assms this]
  have a: "comp_est_update c ?n s (left i) i = Inr ?ce1" .
  have "right i < ?n \<longrightarrow> ?ce1 < ?n" by (simp add: left_eq right_eq)
  from comp_est_update_best [OF assms this]
  have "comp_est_update c ?n s (right i) ?ce1 = Inr (best R (nodes s) (sons BinaryHeap i) i)"
    by (simp add: sons_def best_Cons)
  with a show ?thesis by blast
qed

lemma KHeap_select_best:
  assumes "comp_ok c P R" "P s"
  shows "KHeap_sons_loop c K (length (nodes s)) s i [0..<K] i =
           Inr (best R (nodes s) (sons (KHeap K) i) i)"
proof -
  have "\<forall>j \<in> set [0..<K]. child K i j < length (nodes s) \<longrightarrow> i < length (nodes s)"
  proof (intro ballI impI)
    fix j assume "j \<in> set [0..<K]" "child K i j < length (nodes s)"
    moreover from this have "child K i j \<in> set (sons (KHeap K) i)"
      by (simp add: sons_def)
    from sons_greater [OF this] have "i < child K i j" .
    ultimately show "i < length (nodes s)" by simp
  qed
  from KHeap_sons_loop_best [OF assms this] show ?thesis
    by (simp add: sons_def)
qed

text \<open>One round of a \<open>heapify_down\<close> loop, once the best of a node and its sons is known.\<close>

lemma round_swap:
  assumes "swap_ok c P" "P s" and b: "ce = best R (nodes s) (sons h i) i" and ne: "i \<noteq> ce"
  shows "\<exists>s1. swap_nodes c i ce s = Inr s1 \<and> P s1 \<and> length (nodes s1) = length (nodes s) \<and>
           mset (nodes s1) = mset (nodes s) \<and>
           (strict_weak R \<longrightarrow> well_formed h \<longrightarrow> down_inv h R lo i (nodes s) \<longrightarrow>
              down_inv h R lo ce (nodes s1))"
proof -
  from best_cases [of R "nodes s" "sons h i" i] b ne
  have cs: "ce \<in> set (sons h i)" and cn: "ce < length (nodes s)" by auto
  from sons_greater [OF cs] cn have i: "i < length (nodes s)" by simp
  from swap_okD [OF assms(1,2) i cn] obtain s1 where
    s1: "swap_nodes c i ce s = Inr s1" "P s1"
      "nodes s1 = (nodes s)[i := nodes s ! ce, ce := nodes s ! i]"
    by blast
  have "mset (nodes s1) = mset (nodes s)"
    unfolding s1(3) by (rule mset_swap [OF cn i])
  moreover have "down_inv h R lo ce (nodes s1)"
    if "strict_weak R" "well_formed h" "down_inv h R lo i (nodes s)"
    unfolding s1(3) using sift_swap [OF that b] ne by simp
  ultimately show ?thesis
    using s1 by simp
qed

lemma BinaryHeap_loop_correct:
  "comp_ok c P R \<Longrightarrow> swap_ok c P \<Longrightarrow> P s \<Longrightarrow> len = length (nodes s) \<Longrightarrow>
     \<exists>s'. BinaryHeap_heapify_down_loop c len i s = Inr s' \<and> P s' \<and>
          mset (nodes s') = mset (nodes s) \<and>
          (strict_weak R \<longrightarrow> down_inv BinaryHeap R lo i (nodes s) \<longrightarrow>
             heap_from BinaryHeap R lo (nodes s'))"
proof (induction c len i s rule: BinaryHeap_heapify_down_loop.induct)
  case (1 c len i s)
  let ?b = "best R (nodes s) (sons BinaryHeap i) i"
  have wf: "well_formed BinaryHeap" by (simp add: well_formed_def)
  have fin: "heap_from BinaryHeap R lo (nodes s)"
    if "?b = i" "strict_weak R" "down_inv BinaryHeap R lo i (nodes s)"
    using sift_done [OF that(2) wf that(3) that(1)] .
  show ?case
  proof (cases "BinaryHeap_is_leaf (size_h s) i")
    case True
    then have "?b = i"
      by (intro best_out_of_range) (auto dest: is_leaf_Binary simp: size_h_def)
    with True fin 1(4) show ?thesis
      by (subst BinaryHeap_heapify_down_loop.simps) simp
  next
    case False
    from Binary_select_best [OF 1(2,4), of i] 1(5) obtain ce1 where
      sel: "comp_est_update c len s (left i) i = Inr ce1"
        "comp_est_update c len s (right i) ce1 = Inr ?b"
      by auto
    show ?thesis
    proof (cases "i = ?b")
      case True
      with False sel fin show ?thesis
        using 1(4) by (subst BinaryHeap_heapify_down_loop.simps) simp
    next
      case ne: False
      from round_swap [OF 1(3,4) refl ne, of lo] obtain s1 where
        s1: "swap_nodes c i ?b s = Inr s1" "P s1" "length (nodes s1) = length (nodes s)"
          "mset (nodes s1) = mset (nodes s)"
          "strict_weak R \<longrightarrow> down_inv BinaryHeap R lo i (nodes s) \<longrightarrow>
             down_inv BinaryHeap R lo ?b (nodes s1)"
        using wf by auto
      from 1(1) [OF False sel ne s1(1) 1(2,3) s1(2)] 1(5) s1(3) obtain s' where
        s': "BinaryHeap_heapify_down_loop c len ?b s1 = Inr s'" "P s'"
          "mset (nodes s') = mset (nodes s1)"
          "strict_weak R \<longrightarrow> down_inv BinaryHeap R lo ?b (nodes s1) \<longrightarrow>
             heap_from BinaryHeap R lo (nodes s')"
        by auto
      from False sel ne s1 s' show ?thesis
        by (subst BinaryHeap_heapify_down_loop.simps) simp
    qed
  qed
qed

lemma KHeap_loop_correct:
  "comp_ok c P R \<Longrightarrow> swap_ok c P \<Longrightarrow> P s \<Longrightarrow> len = length (nodes s) \<Longrightarrow> comp_est = i \<Longrightarrow>
     \<exists>s'. KHeap_heapify_down_loop c K len i comp_est s = Inr s' \<and> P s' \<and>
          mset (nodes s') = mset (nodes s) \<and>
          (strict_weak R \<longrightarrow> well_formed (KHeap K) \<longrightarrow> down_inv (KHeap K) R lo i (nodes s) \<longrightarrow>
             heap_from (KHeap K) R lo (nodes s'))"
proof (induction c K len i comp_est s rule: KHeap_heapify_down_loop.induct)
  case (1 c K len i comp_est s)
  let ?b = "best R (nodes s) (sons (KHeap K) i) i"
  have fin: "heap_from (KHeap K) R lo (nodes s)"
    if "?b = i" "strict_weak R" "well_formed (KHeap K)" "down_inv (KHeap K) R lo i (nodes s)"
    using sift_done [OF that(2,3,4,1)] .
  show ?case
  proof (cases "KHeap_is_leaf K (size_h s) i")
    case True
    then have "?b = i"
      by (intro best_out_of_range) (auto dest: is_leaf_KHeap simp: size_h_def)
    with True fin 1(4) show ?thesis
      by (subst KHeap_heapify_down_loop.simps) simp
  next
    case False
    from KHeap_select_best [OF 1(2,4), of K i] 1(5,6)
    have sel: "KHeap_sons_loop c K len s i [0..<K] comp_est = Inr ?b"
      by simp
    show ?thesis
    proof (cases "i = ?b")
      case True
      with False sel fin show ?thesis
        using 1(4) by (subst KHeap_heapify_down_loop.simps) simp
    next
      case ne: False
      from round_swap [OF 1(3,4) refl ne, of lo] obtain s1 where
        s1: "swap_nodes c i ?b s = Inr s1" "P s1" "length (nodes s1) = length (nodes s)"
          "mset (nodes s1) = mset (nodes s)"
          "strict_weak R \<longrightarrow> well_formed (KHeap K) \<longrightarrow> down_inv (KHeap K) R lo i (nodes s) \<longrightarrow>
             down_inv (KHeap K) R lo ?b (nodes s1)"
        by auto
      from 1(1) [OF False sel ne s1(1) 1(2,3) s1(2)] 1(5) s1(3) obtain s' where
        s': "KHeap_heapify_down_loop c K len ?b ?b s1 = Inr s'" "P s'"
          "mset (nodes s') = mset (nodes s1)"
          "strict_weak R \<longrightarrow> well_formed (KHeap K) \<longrightarrow> down_inv (KHeap K) R lo ?b (nodes s1) \<longrightarrow>
             heap_from (KHeap K) R lo (nodes s')"
        by auto
      from False sel ne s1 s' show ?thesis
        by (subst KHeap_heapify_down_loop.simps) simp
    qed
  qed
qed


lemma heapify_down_correct:
  assumes "comp_ok c P R" "swap_ok c P" "P s"
  shows "\<exists>s'. heapify_down c i s = Inr s' \<and> P s' \<and> mset (nodes s') = mset (nodes s) \<and>
           (strict_weak R \<longrightarrow> well_formed (impl c) \<longrightarrow> down_inv (impl c) R lo i (nodes s) \<longrightarrow>
              heap_from (impl c) R lo (nodes s'))"
proof (cases "impl c")
  case BinaryHeap
  with BinaryHeap_loop_correct [OF assms refl, of i lo] show ?thesis
    by (auto simp: heapify_down_def BinaryHeap_heapify_down_def size_h_def)
next
  case (KHeap K)
  with KHeap_loop_correct [OF assms refl refl, of K i lo] show ?thesis
    by (auto simp: heapify_down_def KHeap_heapify_down_def size_h_def)
qed

lemma heapify_up_correct:
  "comp_ok c P R \<Longrightarrow> swap_ok c P \<Longrightarrow> P s \<Longrightarrow> i < length (nodes s) \<Longrightarrow>
     \<exists>s'. heapify_up c i s = Inr s' \<and> P s' \<and> mset (nodes s') = mset (nodes s) \<and>
          (strict_weak R \<longrightarrow> up_inv (impl c) R i (nodes s) \<longrightarrow> heap_from (impl c) R 0 (nodes s'))"
proof (induction c i s rule: heapify_up.induct)
  case (1 c i s)
  let ?p = "parent (impl c) i"
  let ?xs = "nodes s"
  show ?case
  proof (cases "0 < i")
    case False
    then show ?thesis
      using 1(4) by (subst heapify_up.simps) (auto intro: up_done)
  next
    case True
    from parent_less [OF True, of "impl c"] 1(5) have p: "?p < i" "?p < length ?xs"
      by simp_all
    from comp_okD [OF 1(2,4) p(2) 1(5)]
    have cmp: "comp_fn c s (?xs ! ?p) (?xs ! i) = Inr (R (?xs ! ?p) (?xs ! i))" .
    show ?thesis
    proof (cases "R (?xs ! ?p) (?xs ! i)")
      case False
      with True p 1(4,5) cmp show ?thesis
        by (subst heapify_up.simps) (auto intro: up_done)
    next
      case r: True
      from swap_okD [OF 1(3,4) 1(5) p(2)] obtain s1 where
        s1: "swap_nodes c i ?p s = Inr s1" "P s1"
          "nodes s1 = ?xs[i := ?xs ! ?p, ?p := ?xs ! i]"
        by blast
      have m: "mset (nodes s1) = mset ?xs"
        unfolding s1(3) by (rule mset_swap [OF p(2) 1(5)])
      have "at ?xs ?p = Inr (?xs ! ?p)" "at ?xs i = Inr (?xs ! i)"
        using p 1(5) by simp_all
      from 1(1) [OF True this cmp r s1(1) 1(2,3) s1(2)] p s1(3) obtain s' where
        s': "heapify_up c ?p s1 = Inr s'" "P s'" "mset (nodes s') = mset (nodes s1)"
          "strict_weak R \<longrightarrow> up_inv (impl c) R ?p (nodes s1) \<longrightarrow>
             heap_from (impl c) R 0 (nodes s')"
        by auto
      have h: "heap_from (impl c) R 0 (nodes s')"
        if "strict_weak R" "up_inv (impl c) R i ?xs"
        using s'(4) up_swap [OF that True 1(5) r] that(1) by (simp add: s1(3))
      have "heapify_up c i s = heapify_up c ?p s1"
        by (subst heapify_up.simps) (simp add: True p 1(5) cmp r s1(1))
      with s'(1,2,3) m h show ?thesis
        by simp
    qed
  qed
qed

lemma heap_from_down_inv:
  assumes "heap_from h R (Suc n) xs"
  shows "down_inv h R n n xs"
proof -
  have "\<not> (0 < n \<and> n \<le> parent h n)"
    using parent_less [of n h] by auto
  moreover have "Suc n \<le> parent h j" if "n \<le> parent h j" "parent h j \<noteq> n" for j
    using that by simp
  ultimately show ?thesis
    using assms unfolding heap_from_def down_inv_def by blast
qed

lemma build_heap_loop_correct:
  assumes "comp_ok c P R" "swap_ok c P"
  shows "P s \<Longrightarrow>
     \<exists>s'. build_heap_loop c n s = Inr s' \<and> P s' \<and> mset (nodes s') = mset (nodes s) \<and>
          (strict_weak R \<longrightarrow> well_formed (impl c) \<longrightarrow> heap_from (impl c) R n (nodes s) \<longrightarrow>
             heap_from (impl c) R 0 (nodes s'))"
proof (induction n arbitrary: s)
  case 0
  then show ?case by simp
next
  case (Suc n)
  from heapify_down_correct [OF assms Suc.prems, of n n] obtain s1 where
    s1: "heapify_down c n s = Inr s1" "P s1" "mset (nodes s1) = mset (nodes s)"
      "strict_weak R \<longrightarrow> well_formed (impl c) \<longrightarrow> down_inv (impl c) R n n (nodes s) \<longrightarrow>
         heap_from (impl c) R n (nodes s1)"
    by blast
  from Suc.IH [OF s1(2)] obtain s' where
    s': "build_heap_loop c n s1 = Inr s'" "P s'" "mset (nodes s') = mset (nodes s1)"
      "strict_weak R \<longrightarrow> well_formed (impl c) \<longrightarrow> heap_from (impl c) R n (nodes s1) \<longrightarrow>
         heap_from (impl c) R 0 (nodes s')"
    by blast
  from s1 s' show ?case
    by (auto dest: heap_from_down_inv)
qed

lemma heap_from_start:
  "heap_from h R (case h of BinaryHeap \<Rightarrow> drop_bit 1 (length xs) + 1
                  | KHeap K \<Rightarrow> length xs div K + 1) xs"
proof (cases h)
  case BinaryHeap
  have "(j - 1) div 2 \<le> length xs div 2" if "j < length xs" for j
    using that by (intro div_le_mono) simp
  then show ?thesis
    unfolding heap_from_def using BinaryHeap
    by (fastforce simp: parent_Binary drop_bit_eq_div)
next
  case (KHeap K)
  have "(j - 1) div K \<le> length xs div K" if "j < length xs" for j
    using that by (intro div_le_mono) simp
  then show ?thesis
    unfolding heap_from_def using KHeap
    by (fastforce simp: parent_KHeap)
qed

lemma build_heap_correct:
  assumes "comp_ok c P R" "swap_ok c P" "P s"
  shows "\<exists>s'. build_heap c s = Inr s' \<and> P s' \<and> mset (nodes s') = mset (nodes s) \<and>
           (strict_weak R \<longrightarrow> well_formed (impl c) \<longrightarrow> heap_from (impl c) R 0 (nodes s'))"
proof (cases "impl c")
  case BinaryHeap
  with build_heap_loop_correct [OF assms, of "drop_bit 1 (size_h s) + 1"]
    heap_from_start [of BinaryHeap R "nodes s"]
  show ?thesis
    by (simp add: build_heap_def size_h_def)
next
  case (KHeap K)
  with build_heap_loop_correct [OF assms, of "size_h s div K + 1"]
    heap_from_start [of "KHeap K" R "nodes s"]
  show ?thesis
    by (simp add: build_heap_def size_h_def)
qed

lemma Heap_init_correct:
  assumes "comp_ok c P R" "swap_ok c P" "P s"
  shows "\<exists>s'. Heap_init flag c s = Inr s' \<and> P s' \<and> mset (nodes s') = mset (nodes s) \<and>
           (strict_weak R \<longrightarrow> well_formed (impl c) \<longrightarrow>
              (flag \<longrightarrow> heap_from (impl c) R 0 (nodes s)) \<longrightarrow> heap_from (impl c) R 0 (nodes s'))"
  using build_heap_correct [OF assms] assms(3) by (cases flag) (auto simp: Heap_init_def)

subsection \<open>The heap property around push and pop\<close>

lemma heap_from_pop:
  assumes "heap_from h R 0 xs"
  shows "down_inv h R 0 0 (butlast (xs[0 := last xs]))"
proof -
  let ?ys = "butlast (xs[0 := last xs])"
  have nth: "?ys ! k = xs ! k" if "0 < k" "k < length ?ys" for k
    using that by (simp add: nth_butlast)
  have "\<not> R (?ys ! parent h j) (?ys ! j)"
    if "0 < j" "j < length ?ys" "parent h j \<noteq> 0" for j
  proof -
    from parent_less [OF that(1), of h] that have "0 < parent h j" "parent h j < length ?ys"
      by simp_all
    with that assms show ?thesis
      by (simp add: nth heap_from_def)
  qed
  then show ?thesis
    by (simp add: down_inv_def)
qed

lemma heap_from_push:
  assumes "heap_from h R 0 xs"
  shows "up_inv h R (length xs) (xs @ [x])"
proof -
  have "\<not> R ((xs @ [x]) ! parent h j) ((xs @ [x]) ! j)" if "0 < j" "j < length xs" for j
    using parent_less [OF that(1), of h] that assms
    by (simp add: nth_append heap_from_def)
  moreover have "parent h j \<noteq> length xs" if "0 < j" "j < Suc (length xs)" for j
    using parent_less [OF that(1), of h] that by simp
  ultimately show ?thesis
    by (auto simp: up_inv_def less_Suc_eq)
qed

lemma heap_root:
  assumes "strict_weak R" "heap_from h R 0 xs"
  shows "j < length xs \<Longrightarrow> \<not> R (xs ! 0) (xs ! j)"
proof (induction j rule: less_induct)
  case (less j)
  show ?case
  proof (cases "j = 0")
    case True
    with assms(1) show ?thesis by (simp add: sw_irrefl)
  next
    case False
    then have j: "0 < j" by simp
    from parent_less [OF j, of h] less.prems have "parent h j < j" "parent h j < length xs"
      by simp_all
    from less.IH [OF this] have "\<not> R (xs ! 0) (xs ! parent h j)" .
    moreover from assms(2) j less.prems have "\<not> R (xs ! parent h j) (xs ! j)"
      by (simp add: heap_from_def)
    ultimately show ?thesis
      by (rule sw_negtrans [OF assms(1)])
  qed
qed

section \<open>The classes of the library meet the contract\<close>

lemma Heap_class_comp_ok: "comp_ok (Heap_class h cmp) (\<lambda>s. True) cmp"
  by (simp add: comp_ok_def Heap_class_def)

lemma Heap_class_swap_ok: "swap_ok (Heap_class h cmp) (\<lambda>s. True)"
  by (simp add: swap_ok_def Heap_class_def Heap_swap_nodes_def)

lemma impl_Heap_class [simp]: "impl (Heap_class h cmp) = h"
  by (simp add: Heap_class_def)

lemma impl_PriorityQueue_class [simp]: "impl (PriorityQueue_class h T) = h"
  by (simp add: PriorityQueue_class_def)

section \<open>Sifting down where no son is in range\<close>

lemma comp_est_update_out_of_range:
  "len \<le> son \<Longrightarrow> comp_est_update c len s son ce = Inr ce"
  by (simp add: comp_est_update_def)

lemma KHeap_sons_loop_out_of_range:
  "\<forall>j \<in> set js. len \<le> child K i j \<Longrightarrow> KHeap_sons_loop c K len s i js ce = Inr ce"
  by (induction js) (simp_all add: comp_est_update_out_of_range)

lemma heapify_down_small:
  assumes "size_h s \<le> 1"
  shows "heapify_down c 0 s = Inr s"
proof (cases "impl c")
  case BinaryHeap
  have "\<not> BinaryHeap_is_leaf (size_h s) 0"
    by (simp add: BinaryHeap_is_leaf_def)
  moreover have "comp_est_update c (size_h s) s (left 0) 0 = Inr 0"
    "comp_est_update c (size_h s) s (right 0) 0 = Inr 0"
    using assms by (simp_all add: comp_est_update_out_of_range left_eq right_eq)
  ultimately have "BinaryHeap_heapify_down_loop c (size_h s) 0 s = Inr s"
    by (subst BinaryHeap_heapify_down_loop.simps) simp
  with BinaryHeap show ?thesis
    by (simp add: heapify_down_def BinaryHeap_heapify_down_def)
next
  case (KHeap K)
  have "\<not> KHeap_is_leaf K (size_h s) 0"
    by (simp add: KHeap_is_leaf_def)
  moreover have "KHeap_sons_loop c K (size_h s) s 0 [0..<K] 0 = Inr 0"
    using assms by (intro KHeap_sons_loop_out_of_range) (simp add: child_def)
  ultimately have "KHeap_heapify_down_loop c K (size_h s) 0 0 s = Inr s"
    by (subst KHeap_heapify_down_loop.simps) simp
  with KHeap show ?thesis
    by (simp add: heapify_down_def KHeap_heapify_down_def)
qed

section \<open>The priority queue meets the contract\<close>

lemma maps_consistent_alt:
  "maps_consistent s \<longleftrightarrow>
     distinct (nodes s) \<and> dom (key_map s) = set (nodes s) \<and> dom (index_map s) = set (nodes s) \<and>
     (\<forall>i < length (nodes s). index_map s (nodes s ! i) = Some i)"
  by (auto simp: maps_consistent_def size_h_def distinct_card)

lemma strict_weak_key_comp: "strict_weak (key_comp T)"
  by (cases T) (auto simp: strict_weak_def key_comp_def)

lemma strict_weak_elem_comp: "strict_weak (elem_comp T km)"
  using strict_weak_key_comp [of T] unfolding strict_weak_def elem_comp_def by blast

lemma PQ_comp_ok:
  assumes "km0 \<subseteq>\<^sub>m km"
  shows "comp_ok (PriorityQueue_class h T) (PQ_inv km0) (elem_comp T km)"
  unfolding comp_ok_def
proof (intro allI impI)
  fix s :: "('a, 'b) pq" and a b
  assume P: "PQ_inv km0 s" and a: "a \<in> set (nodes s)" and b: "b \<in> set (nodes s)"
  from P a b have "a \<in> dom km0" "b \<in> dom km0"
    by (auto simp: PQ_inv_def maps_consistent_alt)
  with assms obtain ka kb where k: "km0 a = Some ka" "km a = Some ka" "km0 b = Some kb" "km b = Some kb"
    by (metis domD map_le_def)
  with P show "comp_fn (PriorityQueue_class h T) s a b = Inr (elem_comp T km a b)"
    by (cases T)
      (simp_all add: PriorityQueue_class_def min_heap_comp_factory_def max_heap_comp_factory_def
        map_at_def elem_comp_def key_comp_def PQ_inv_def)
qed

lemma PQ_swap_ok: "swap_ok (PriorityQueue_class h T) (PQ_inv km0)"
  unfolding swap_ok_def
proof (intro allI impI)
  fix s :: "('a, 'b) pq" and i j
  assume P: "PQ_inv km0 s" and i: "i < length (nodes s)" and j: "j < length (nodes s)"
  let ?xs = "nodes s"
  let ?ys = "?xs[i := ?xs ! j, j := ?xs ! i]"
  let ?im = "(index_map s)(?xs ! i \<mapsto> j, ?xs ! j \<mapsto> i)"
  let ?s' = "s\<lparr>index_map := ?im, nodes := ?ys\<rparr>"
  from P have d: "distinct ?xs" and dk: "dom (key_map s) = set ?xs"
    and di: "dom (index_map s) = set ?xs"
    and ix: "\<And>k. k < length ?xs \<Longrightarrow> index_map s (?xs ! k) = Some k"
    and km: "key_map s = km0"
    by (auto simp: PQ_inv_def maps_consistent_alt)
  have sw: "swap_nodes (PriorityQueue_class h T) i j s = Inr ?s'"
    using i j ix
    by (simp add: PriorityQueue_class_def PriorityQueue_swap_nodes_def Heap_swap_nodes_def
        map_at_def)
  have nth: "?ys ! k = (if k = j then ?xs ! i else if k = i then ?xs ! j else ?xs ! k)"
    if "k < length ?xs" for k
    using that i j by (simp add: nth_list_update)
  have "?im (?ys ! k) = Some k" if k: "k < length ?xs" for k
  proof -
    have eq: "?xs ! a = ?xs ! b \<longleftrightarrow> a = b" if "a < length ?xs" "b < length ?xs" for a b
      using d that by (simp add: nth_eq_iff_index_eq)
    show ?thesis
      using k i j ix [OF k] by (auto simp: nth eq)
  qed
  moreover have "dom ?im = set ?ys"
    using i j di by auto
  moreover have "distinct ?ys" "dom (key_map ?s') = set ?ys"
    using i j d dk by simp_all
  ultimately have "PQ_inv km0 ?s'"
    using km by (simp add: PQ_inv_def maps_consistent_alt)
  with sw show "\<exists>s'. swap_nodes (PriorityQueue_class h T) i j s = Inr s' \<and> PQ_inv km0 s' \<and>
       nodes s' = ?ys"
    by simp
qed

lemma heap_property_iff:
  assumes "comp_ok c P R" "P s"
  shows "heap_property c s \<longleftrightarrow> heap_from (impl c) R 0 (nodes s)"
proof -
  have "comp_fn c s (nodes s ! parent (impl c) i) (nodes s ! i) =
          Inr (R (nodes s ! parent (impl c) i) (nodes s ! i))"
    if "0 < i" "i < length (nodes s)" for i
    using parent_less [OF that(1), of "impl c"] that(2)
    by (intro comp_okD [OF assms]) simp_all
  then show ?thesis
    by (auto simp: heap_property_def heap_from_def size_h_def)
qed

lemma heap_property_PQ:
  assumes "maps_consistent s"
  shows "heap_property (PriorityQueue_class h T) s \<longleftrightarrow>
           heap_from h (elem_comp T (key_map s)) 0 (nodes s)"
proof -
  have "comp_ok (PriorityQueue_class h T) (PQ_inv (key_map s)) (elem_comp T (key_map s))"
    by (rule PQ_comp_ok) simp
  moreover from assms have "PQ_inv (key_map s) s"
    by (simp add: PQ_inv_def)
  ultimately show ?thesis
    using heap_property_iff by fastforce
qed

lemma heap_property_Heap:
  "heap_property (Heap_class h cmp) s \<longleftrightarrow> heap_from h cmp 0 (nodes s)"
proof -
  have "comp_ok (Heap_class h cmp) (\<lambda>s. True) cmp"
    by (rule Heap_class_comp_ok)
  from heap_property_iff [OF this, of s] show ?thesis
    by simp
qed

subsection \<open>The maps the constructor builds\<close>

lemma fold_enumerate_notin:
  assumes "\<And>i y m. f (i, y) m = m(y \<mapsto> g i)"
  shows "x \<notin> set xs \<Longrightarrow> fold f (enumerate n xs) m0 x = m0 x"
  by (induction xs arbitrary: n m0) (auto simp: assms)

lemma fold_enumerate_dom:
  assumes "\<And>i y m. f (i, y) m = m(y \<mapsto> g i)"
  shows "dom (fold f (enumerate n xs) m0) = dom m0 \<union> set xs"
  by (induction xs arbitrary: n m0) (auto simp: assms)

lemma fold_enumerate_nth:
  assumes "\<And>i y m. f (i, y) m = m(y \<mapsto> g i)"
  shows "distinct xs \<Longrightarrow> i < length xs \<Longrightarrow> fold f (enumerate n xs) m0 (xs ! i) = Some (g (n + i))"
proof (induction xs arbitrary: n m0 i)
  case Nil
  then show ?case by simp
next
  case (Cons x xs)
  show ?case
  proof (cases i)
    case 0
    from Cons.prems have "x \<notin> set xs" by simp
    from fold_enumerate_notin [of f g, OF assms this, of "Suc n" "m0(x \<mapsto> g n)"] 0
    show ?thesis
      by (simp add: assms)
  next
    case (Suc k)
    have "fold f (enumerate n (x # xs)) m0 = fold f (enumerate (Suc n) xs) (m0(x \<mapsto> g n))"
      by (simp add: assms)
    moreover have "fold f (enumerate (Suc n) xs) (m0(x \<mapsto> g n)) (xs ! k) = Some (g (Suc n + k))"
      by (rule Cons.IH) (use Cons.prems Suc in auto)
    ultimately show ?thesis
      using Suc by simp
  qed
qed

lemma build_index_map_correct:
  "dom (build_index_map xs) = set xs"
  "distinct xs \<Longrightarrow> i < length xs \<Longrightarrow> build_index_map xs (xs ! i) = Some i"
  unfolding build_index_map_def
  by (subst fold_enumerate_dom [where g = "\<lambda>i. i"] fold_enumerate_nth [where g = "\<lambda>i. i"];
      simp)+

lemma build_key_map_correct:
  assumes "length keys = length xs"
  shows "\<exists>km. build_key_map keys xs = Inr km \<and> dom km = set xs \<and>
           (distinct xs \<longrightarrow> (\<forall>i < length xs. km (xs ! i) = Some (keys ! i)))"
proof -
  let ?f = "\<lambda>(index, node) m. m(node \<mapsto> keys ! index)"
  have f: "\<And>i y m. ?f (i, y) m = m(y \<mapsto> keys ! i)" by simp
  have "dom (fold ?f (enumerate 0 xs) Map.empty) = set xs"
    by (subst fold_enumerate_dom [of ?f "\<lambda>i. keys ! i", OF f]) simp
  moreover have "fold ?f (enumerate 0 xs) Map.empty (xs ! i) = Some (keys ! i)"
    if "distinct xs" "i < length xs" for i
    by (subst fold_enumerate_nth [of ?f "\<lambda>i. keys ! i", OF f that]) simp
  ultimately show ?thesis
    using assms by (simp add: build_key_map_def)
qed

lemma PriorityQueue_members_correct:
  assumes "distinct inputs" "length keys = length inputs"
  shows "\<exists>s. PriorityQueue_members keys inputs = Inr s \<and> maps_consistent s \<and> nodes s = inputs \<and>
           (\<forall>i < length inputs. key_map s (inputs ! i) = Some (keys ! i))"
proof -
  from build_key_map_correct [OF assms(2)] assms(1) obtain km where
    km: "build_key_map keys inputs = Inr km" "dom km = set inputs"
      "\<forall>i < length inputs. km (inputs ! i) = Some (keys ! i)"
    by blast
  with assms(1) build_index_map_correct [of inputs] show ?thesis
    by (simp add: PriorityQueue_members_def maps_consistent_alt)
qed


section \<open>The operations of the priority queue\<close>

lemma heap_from_cong:
  assumes "\<And>a b. a \<in> set xs \<Longrightarrow> b \<in> set xs \<Longrightarrow> R a b = R' a b"
  shows "heap_from h R lo xs = heap_from h R' lo xs"
proof -
  have "R (xs ! parent h j) (xs ! j) = R' (xs ! parent h j) (xs ! j)"
    if "0 < j" "j < length xs" for j
    using parent_less [OF that(1), of h] that(2) by (intro assms) simp_all
  then show ?thesis
    by (auto simp: heap_from_def)
qed

lemma PriorityQueue_new_correct:
  assumes "distinct inputs" "length keys = length inputs" "well_formed h"
  shows "\<exists>s. PriorityQueue_new h T flag keys inputs = Inr s \<and> maps_consistent s \<and>
           mset (nodes s) = mset inputs \<and>
           (\<forall>i < length inputs. key_map s (inputs ! i) = Some (keys ! i)) \<and>
           (\<not> flag \<longrightarrow> heap_property (PriorityQueue_class h T) s)"
proof -
  let ?c = "PriorityQueue_class h T :: ('a, 'b) pq_cls"
  from PriorityQueue_members_correct [OF assms(1,2)] obtain s0 where
    s0: "PriorityQueue_members keys inputs = Inr s0" "maps_consistent s0" "nodes s0 = inputs"
      "\<forall>i < length inputs. key_map s0 (inputs ! i) = Some (keys ! i)"
    by blast
  let ?R = "elem_comp T (key_map s0)"
  have c: "comp_ok ?c (PQ_inv (key_map s0)) ?R"
    by (rule PQ_comp_ok) simp
  from s0(2) have P: "PQ_inv (key_map s0) s0"
    by (simp add: PQ_inv_def)
  from Heap_init_correct [OF c PQ_swap_ok P, of flag] obtain s where
    s: "Heap_init flag ?c s0 = Inr s" "PQ_inv (key_map s0) s" "mset (nodes s) = mset (nodes s0)"
      "strict_weak ?R \<longrightarrow> well_formed (impl ?c) \<longrightarrow>
         (flag \<longrightarrow> heap_from (impl ?c) ?R 0 (nodes s0)) \<longrightarrow> heap_from (impl ?c) ?R 0 (nodes s)"
    by blast
  from s(4) assms(3) have "\<not> flag \<longrightarrow> heap_from h ?R 0 (nodes s)"
    by (simp add: strict_weak_elem_comp)
  with heap_property_iff [OF c s(2)] have "\<not> flag \<longrightarrow> heap_property ?c s"
    by simp
  with s0 s assms(3) show ?thesis
    by (simp add: PriorityQueue_new_def PQ_inv_def)
qed

lemma push_correct:
  assumes mc: "maps_consistent s" and e: "element \<notin> set (nodes s)"
  shows "\<exists>s'. push h T key element s = Inr s' \<and> maps_consistent s' \<and>
           key_map s' = (key_map s)(element \<mapsto> key) \<and>
           mset (nodes s') = add_mset element (mset (nodes s)) \<and>
           (heap_property (PriorityQueue_class h T) s \<longrightarrow>
              heap_property (PriorityQueue_class h T) s')"
proof -
  let ?c = "PriorityQueue_class h T :: ('a, 'b) pq_cls"
  let ?xs = "nodes s"
  let ?km = "(key_map s)(element \<mapsto> key)"
  let ?s2 = "s\<lparr>index_map := (index_map s)(element \<mapsto> size_h s), key_map := ?km,
               nodes := ?xs @ [element]\<rparr>"
  let ?R = "elem_comp T (key_map s)" and ?R' = "elem_comp T ?km"
  from mc have d: "distinct ?xs" and dk: "dom (key_map s) = set ?xs"
    and di: "dom (index_map s) = set ?xs"
    and ix: "\<And>k. k < length ?xs \<Longrightarrow> index_map s (?xs ! k) = Some k"
    by (auto simp: maps_consistent_alt)
  have "((index_map s)(element \<mapsto> length ?xs)) ((?xs @ [element]) ! k) = Some k"
    if "k < Suc (length ?xs)" for k
    using that e ix by (auto simp: nth_append less_Suc_eq)
  with d dk di e have "maps_consistent ?s2"
    by (simp add: maps_consistent_alt size_h_def)
  then have P: "PQ_inv ?km ?s2"
    by (simp add: PQ_inv_def)
  have c: "comp_ok ?c (PQ_inv ?km) ?R'"
    by (rule PQ_comp_ok) simp
  have "size_h s < length (nodes ?s2)"
    by (simp add: size_h_def)
  from heapify_up_correct [OF c PQ_swap_ok P this] obtain s' where
    s': "heapify_up ?c (size_h s) ?s2 = Inr s'" "PQ_inv ?km s'"
      "mset (nodes s') = mset (nodes ?s2)"
      "strict_weak ?R' \<longrightarrow> up_inv (impl ?c) ?R' (size_h s) (nodes ?s2) \<longrightarrow>
         heap_from (impl ?c) ?R' 0 (nodes s')"
    by blast
  have "heap_property ?c s'" if "heap_property ?c s"
  proof -
    from that mc have "heap_from h ?R 0 ?xs"
      by (simp add: heap_property_PQ)
    moreover have "?R a b = ?R' a b" if "a \<in> set ?xs" "b \<in> set ?xs" for a b
      using that e by (auto simp: elem_comp_def)
    ultimately have "heap_from h ?R' 0 ?xs"
      using heap_from_cong [of ?xs ?R ?R' h 0] by blast
    from heap_from_push [OF this, of element] s'(4) have "heap_from h ?R' 0 (nodes s')"
      by (simp add: strict_weak_elem_comp size_h_def)
    with heap_property_iff [OF c s'(2)] show ?thesis
      by simp
  qed
  with s' show ?thesis
    by (simp add: push_def Heap_push_def PQ_inv_def size_h_def)
qed

lemma up_inv_decrease:
  assumes hp: "heap_from h (elem_comp T km) 0 xs" and d: "distinct xs" and i: "i < length xs"
    and old: "km (xs ! i) = Some old" and dir: "\<not> key_comp T k old"
  shows "up_inv h (elem_comp T (km(xs ! i \<mapsto> k))) i xs"
proof -
  let ?e = "xs ! i"
  let ?R = "elem_comp T km" and ?R' = "elem_comp T (km(?e \<mapsto> k))"
  note sw = strict_weak_elem_comp [of T km]
  have ne: "xs ! j \<noteq> ?e" if "j < length xs" "j \<noteq> i" for j
    using that d i by (simp add: nth_eq_iff_index_eq)
  have same: "?R' a b = ?R a b" if "a \<noteq> ?e" "b \<noteq> ?e" for a b
    using that by (simp add: elem_comp_def)
  have edge: "\<not> ?R (xs ! parent h j) (xs ! j)" if "0 < j" "j < length xs" for j
    using hp that by (simp add: heap_from_def)
  have one: "\<not> ?R' (xs ! parent h j) (xs ! j)" if j: "0 < j" "j < length xs" "j \<noteq> i" for j
  proof (cases "parent h j = i")
    case True
    from edge [OF j(1,2)] True old have "\<not> key_comp T old (the (km (xs ! j)))"
      by (simp add: elem_comp_def)
    from sw_negtrans [OF strict_weak_key_comp dir this] True ne [OF j(2,3)] show ?thesis
      by (simp add: elem_comp_def)
  next
    case False
    from parent_less [OF j(1), of h] j(2) have "parent h j < length xs" by simp
    from ne [OF this False] ne [OF j(2,3)] edge [OF j(1,2)] show ?thesis
      by (simp add: same)
  qed
  have two: "\<not> ?R' (xs ! parent h i) (xs ! j)"
    if j: "0 < j" "j < length xs" "parent h j = i" and i0: "0 < i" for j
  proof -
    from parent_less [OF i0, of h] i have p: "parent h i < length xs" "parent h i \<noteq> i"
      by simp_all
    from parent_less [OF j(1), of h] j(3) have ji: "j \<noteq> i" by auto
    from sw_negtrans [OF sw edge [OF i0 i]] edge [OF j(1,2)] j(3)
    have "\<not> ?R (xs ! parent h i) (xs ! j)" by simp
    with ne [OF p] ne [OF j(2) ji] show ?thesis
      by (simp add: same)
  qed
  from one two show ?thesis
    by (simp add: up_inv_def)
qed

lemma update_key_correct:
  assumes mc: "maps_consistent s" and e: "element \<in> set (nodes s)"
  shows "\<exists>s' i old. update_key h T key element s = Inr s' \<and> maps_consistent s' \<and>
           key_map s' = (key_map s)(element \<mapsto> key) \<and> mset (nodes s') = mset (nodes s) \<and>
           index_map s element = Some i \<and> nodes s ! i = element \<and> i < size_h s \<and>
           key_map s element = Some old \<and>
           (T = min_heap \<longrightarrow>
              heapify_up (PriorityQueue_class h T) i (s\<lparr>key_map := (key_map s)(element \<mapsto> key)\<rparr>)
                = Inr s') \<and>
           (T = min_heap \<longrightarrow> key \<le> old \<longrightarrow> heap_property (PriorityQueue_class h T) s \<longrightarrow>
              heap_property (PriorityQueue_class h T) s')"
proof -
  let ?c = "PriorityQueue_class h T :: ('a, 'b) pq_cls"
  let ?xs = "nodes s"
  let ?km = "(key_map s)(element \<mapsto> key)"
  let ?s1 = "s\<lparr>key_map := ?km\<rparr>"
  let ?R = "elem_comp T (key_map s)" and ?R' = "elem_comp T ?km"
  from mc have d: "distinct ?xs" and dk: "dom (key_map s) = set ?xs"
    and di: "dom (index_map s) = set ?xs"
    and ix: "\<And>k. k < length ?xs \<Longrightarrow> index_map s (?xs ! k) = Some k"
    by (auto simp: maps_consistent_alt)
  from e obtain i where i: "i < length ?xs" "?xs ! i = element"
    by (auto simp: in_set_conv_nth)
  with ix have im: "index_map s element = Some i" by auto
  from e dk obtain old where old: "key_map s element = Some old" by auto
  from mc e dk have "maps_consistent ?s1"
    by (auto simp: maps_consistent_alt)
  then have P: "PQ_inv ?km ?s1"
    by (simp add: PQ_inv_def)
  have c: "comp_ok ?c (PQ_inv ?km) ?R'"
    by (rule PQ_comp_ok) simp
  have i1: "i < length (nodes ?s1)"
    using i by simp
  show ?thesis
  proof (cases T)
    case min_heap
    from heapify_up_correct [OF c PQ_swap_ok P i1] obtain s' where
      s': "heapify_up ?c i ?s1 = Inr s'" "PQ_inv ?km s'" "mset (nodes s') = mset (nodes ?s1)"
        "strict_weak ?R' \<longrightarrow> up_inv (impl ?c) ?R' i (nodes ?s1) \<longrightarrow>
           heap_from (impl ?c) ?R' 0 (nodes s')"
      by blast
    have "heap_property ?c s'" if "key \<le> old" "heap_property ?c s"
    proof -
      from that mc have "heap_from h ?R 0 ?xs"
        by (simp add: heap_property_PQ)
      moreover from that min_heap have "\<not> key_comp T key old"
        by (simp add: key_comp_def)
      ultimately have "up_inv h (elem_comp T ((key_map s)(?xs ! i \<mapsto> key))) i ?xs"
        using d i old by (intro up_inv_decrease) simp_all
      with s'(4) i have "heap_from h ?R' 0 (nodes s')"
        by (simp add: strict_weak_elem_comp)
      with heap_property_iff [OF c s'(2)] show ?thesis
        by simp
    qed
    with s' im old i min_heap show ?thesis
      by (simp add: update_key_def map_at_def PQ_inv_def size_h_def)
  next
    case max_heap
    from heapify_down_correct [OF c PQ_swap_ok P, of i 0] obtain s' where
      s': "heapify_down ?c i ?s1 = Inr s'" "PQ_inv ?km s'" "mset (nodes s') = mset (nodes ?s1)"
      by blast
    with im old i max_heap show ?thesis
      by (simp add: update_key_def map_at_def PQ_inv_def size_h_def)
  qed
qed


lemma mset_pop:
  assumes "xs \<noteq> []"
  shows "mset (butlast (xs[0 := last xs])) = mset (tl xs)"
proof (cases xs)
  case Nil
  with assms show ?thesis by simp
next
  case (Cons r rest)
  show ?thesis
  proof (cases "rest = []")
    case True
    with Cons show ?thesis by simp
  next
    case False
    then have "mset (butlast rest @ [last rest]) = mset rest"
      by simp
    then have "add_mset (last rest) (mset (butlast rest)) = mset rest"
      by (simp only: mset_append mset.simps add_mset_add_single [symmetric] union_mset_add_mset_right
          add.right_neutral)
    with Cons False show ?thesis
      by simp
  qed
qed

lemma pop_correct:
  assumes mc: "maps_consistent s" and ne: "nodes s \<noteq> []"
  shows "\<exists>s'. pop h T s = Inr s' \<and> maps_consistent s' \<and>
           key_map s' = (key_map s)(hd (nodes s) := None) \<and>
           mset (nodes s') = mset (tl (nodes s)) \<and>
           (well_formed h \<longrightarrow> heap_property (PriorityQueue_class h T) s \<longrightarrow>
              heap_property (PriorityQueue_class h T) s')"
proof -
  let ?c = "PriorityQueue_class h T :: ('a, 'b) pq_cls"
  let ?xs = "nodes s"
  let ?r = "hd ?xs"
  let ?ys = "butlast (?xs[0 := last ?xs])"
  let ?km = "(key_map s)(?r := None)"
  let ?im1 = "(index_map s)(?r := None)"
  let ?s2 = "s\<lparr>index_map := ?im1, key_map := ?km, nodes := ?ys\<rparr>"
  let ?R = "elem_comp T (key_map s)"
  from mc have d: "distinct ?xs" and dk: "dom (key_map s) = set ?xs"
    and di: "dom (index_map s) = set ?xs"
    and ix: "\<And>k. k < length ?xs \<Longrightarrow> index_map s (?xs ! k) = Some k"
    by (auto simp: maps_consistent_alt)
  from ne have r: "?xs ! 0 = ?r"
    by (simp add: hd_conv_nth)
  from ne have xs: "?xs = ?r # tl ?xs"
    by simp
  from d xs have rt: "?r \<notin> set (tl ?xs)" and dt: "distinct (tl ?xs)"
    by (metis distinct.simps(2))+
  from xs have st: "set ?xs = insert ?r (set (tl ?xs))"
    by (metis list.simps(15))
  have m: "mset ?ys = mset (tl ?xs)"
    by (rule mset_pop [OF ne])
  then have sy: "set ?ys = set (tl ?xs)"
    by (rule mset_eq_setD)
  from m dt have dy: "distinct ?ys"
    by (metis mset_eq_imp_distinct_iff)
  have ly: "length ?ys = length ?xs - 1"
    by simp
  have dkm: "dom ?km = set ?ys"
    using dk st rt sy by auto
  have c: "comp_ok ?c (PQ_inv ?km) ?R"
    by (rule PQ_comp_ok) (simp add: map_le_def)
  have start: "pop h T s =
      (if 0 < size_h ?s2 then
         (case map_at (index_map ?s2) (hd (nodes ?s2)) of Inl e \<Rightarrow> Inl e
          | Inr old \<Rightarrow> heapify_down ?c 0 (?s2\<lparr>index_map := (index_map ?s2)(hd (nodes ?s2) \<mapsto> 0)\<rparr>))
       else Inr ?s2)"
  proof -
    let ?t1 = "s\<lparr>index_map := ?im1, key_map := ?km\<rparr>"
    let ?t2 = "?t1\<lparr>nodes := butlast ((nodes ?t1)[0 := last (nodes ?t1)])\<rparr>"
    from ne have a: "0 < size_h s" "at (nodes s) 0 = Inr ?r"
      by (simp_all add: size_h_def hd_conv_nth)
    have "pop h T s =
      (if 0 < size_h ?t2 then
         (case map_at (index_map ?t2) (hd (nodes ?t2)) of Inl e \<Rightarrow> Inl e
          | Inr old \<Rightarrow> heapify_down ?c 0 (?t2\<lparr>index_map := (index_map ?t2)(hd (nodes ?t2) \<mapsto> 0)\<rparr>))
       else Inr ?t2)"
      by (simp only: pop_def Let_def a if_True sum.case)
    moreover have "?t2 = ?s2"
      by simp
    ultimately show ?thesis
      by (simp only:)
  qed
  show ?thesis
  proof (cases "?ys = []")
    case True
    have "dom ?im1 = set ?ys"
      using di st rt sy by auto
    with dkm True have "maps_consistent ?s2"
      by (simp add: maps_consistent_alt)
    moreover have "heap_property ?c ?s2"
      using True by (simp add: heap_property_def size_h_def)
    moreover from True have "\<not> 0 < size_h ?s2"
      by (simp add: size_h_def)
    then have "pop h T s = Inr ?s2"
      by (simp only: start if_False)
    moreover from True m have "mset (nodes ?s2) = mset (tl ?xs)" "key_map ?s2 = ?km"
      by simp_all
    ultimately show ?thesis
      by blast
  next
    case False
    let ?f = "hd ?ys"
    let ?im = "?im1(?f \<mapsto> 0)"
    let ?s3 = "?s2\<lparr>index_map := ?im\<rparr>"
    from False have l2: "2 \<le> length ?xs"
      by (cases ?xs; cases "tl ?xs") auto
    from False have f: "?f = last ?xs"
      using l2 by (cases ?xs) (auto simp: hd_conv_nth nth_butlast)
    from False have fy: "?f \<in> set ?ys" by simp
    with sy rt have fr: "?f \<noteq> ?r" by auto
    from fy sy st di have "?f \<in> dom (index_map s)" by auto
    with fr obtain old where old: "map_at (index_map ?s2) (hd (nodes ?s2)) = Inr old"
      by (auto simp: map_at_def)
    from l2 have pos: "0 < size_h ?s2"
      by (simp add: size_h_def)
    have nth: "?ys ! k = ?xs ! k" if "0 < k" "k < length ?ys" for k
      using that by (simp add: nth_butlast)
    have "?im (?ys ! k) = Some k" if k: "k < length ?ys" for k
    proof (cases "k = 0")
      case True
      with False show ?thesis by (simp add: hd_conv_nth)
    next
      case k0: False
      from k ly have kx: "k < length ?xs" "k \<noteq> length ?xs - 1" by simp_all
      from d kx k0 ne have "?xs ! k \<noteq> ?xs ! 0" "?xs ! k \<noteq> ?xs ! (length ?xs - 1)"
        by (simp_all add: nth_eq_iff_index_eq)
      with ne r f have "?xs ! k \<noteq> ?r" "?xs ! k \<noteq> ?f"
        by (simp_all add: last_conv_nth)
      with k0 k ix [OF kx(1)] show ?thesis
        by (simp add: nth)
    qed
    moreover have "dom ?im = set ?ys"
      using di st rt sy fy by auto
    ultimately have "maps_consistent ?s3"
      using dy dkm by (simp add: maps_consistent_alt)
    then have P: "PQ_inv ?km ?s3"
      by (simp add: PQ_inv_def)
    from heapify_down_correct [OF c PQ_swap_ok P, of 0 0] obtain s' where
      s': "heapify_down ?c 0 ?s3 = Inr s'" "PQ_inv ?km s'" "mset (nodes s') = mset (nodes ?s3)"
        "strict_weak ?R \<longrightarrow> well_formed (impl ?c) \<longrightarrow> down_inv (impl ?c) ?R 0 0 (nodes ?s3) \<longrightarrow>
           heap_from (impl ?c) ?R 0 (nodes s')"
      by blast
    have "heap_property ?c s'" if "well_formed h" "heap_property ?c s"
    proof -
      from that mc have "heap_from h ?R 0 ?xs"
        by (simp add: heap_property_PQ)
      from heap_from_pop [OF this] s'(4) that(1) have "heap_from h ?R 0 (nodes s')"
        by (simp add: strict_weak_elem_comp)
      with heap_property_iff [OF c s'(2)] show ?thesis
        by simp
    qed
    moreover have "?s2\<lparr>index_map := (index_map ?s2)(hd (nodes ?s2) \<mapsto> 0)\<rparr> = ?s3"
      by simp
    then have "pop h T s = heapify_down ?c 0 ?s3"
      by (simp only: start pos if_True old sum.case)
    moreover from s'(3) m have "mset (nodes s') = mset (tl ?xs)"
      by simp
    moreover from s'(2) have "maps_consistent s'" "key_map s' = ?km"
      by (simp_all add: PQ_inv_def)
    ultimately show ?thesis
      using s'(1) by simp
  qed
qed

lemma top_key_value_correct:
  assumes mc: "maps_consistent s" and ne: "nodes s \<noteq> []"
  shows "top_key_value s = Inr (the (key_map s (hd (nodes s))), hd (nodes s))"
proof -
  from mc ne have "hd (nodes s) \<in> dom (key_map s)"
    by (simp add: maps_consistent_alt)
  with ne show ?thesis
    by (auto simp: top_key_value_def Heap_top_def key_at_def map_at_def size_h_def hd_conv_nth)
qed

lemma pop_loop_correct:
  assumes wf: "well_formed h"
  shows "maps_consistent s \<Longrightarrow> heap_property (PriorityQueue_class h T) s \<Longrightarrow> size_h s \<le> n \<Longrightarrow>
     \<exists>out. pop_loop h T n s = Inr out \<and>
           mset out = image_mset (\<lambda>v. (the (key_map s v), v)) (mset (nodes s)) \<and>
           sorted_wrt (\<lambda>x y. \<not> key_comp T (fst x) (fst y)) out"
proof (induction n arbitrary: s)
  case 0
  then show ?case by (simp add: size_h_def)
next
  case (Suc n)
  let ?xs = "nodes s"
  let ?r = "hd ?xs"
  let ?f = "\<lambda>v. (the (key_map s v), v)"
  show ?case
  proof (cases "?xs = []")
    case True
    then show ?thesis by (simp add: empty_h_def size_h_def)
  next
    case False
    then have xs: "?xs = ?r # tl ?xs" by simp
    from Suc.prems(1) have d: "distinct ?xs"
      by (simp add: maps_consistent_alt)
    with xs have rt: "?r \<notin> set (tl ?xs)"
      by (metis distinct.simps(2))
    from pop_correct [OF Suc.prems(1) False, of h T] wf Suc.prems(2) obtain s' where
      s': "pop h T s = Inr s'" "maps_consistent s'" "key_map s' = (key_map s)(?r := None)"
        "mset (nodes s') = mset (tl ?xs)" "heap_property (PriorityQueue_class h T) s'"
      by blast
    from s'(4) have "length (nodes s') = length (tl ?xs)"
      by (rule mset_eq_length)
    with Suc.prems(3) have "size_h s' \<le> n"
      by (simp add: size_h_def)
    from Suc.IH [OF s'(2,5) this] obtain out where
      out: "pop_loop h T n s' = Inr out"
        "mset out = image_mset (\<lambda>v. (the (key_map s' v), v)) (mset (nodes s'))"
        "sorted_wrt (\<lambda>x y. \<not> key_comp T (fst x) (fst y)) out"
      by blast
    have "image_mset (\<lambda>v. (the (key_map s' v), v)) (mset (tl ?xs)) = image_mset ?f (mset (tl ?xs))"
      using rt by (intro image_mset_cong) (auto simp: s'(3))
    with out(2) s'(4) have mo: "mset out = image_mset ?f (mset (tl ?xs))"
      by simp
    have "mset (?f ?r # out) = image_mset ?f (mset (?r # tl ?xs))"
      by (simp add: mo)
    with xs have m: "mset (?f ?r # out) = image_mset ?f (mset ?xs)"
      by simp
    from Suc.prems(1,2) have hp: "heap_from h (elem_comp T (key_map s)) 0 ?xs"
      by (simp add: heap_property_PQ)
    have "\<not> key_comp T (fst (?f ?r)) (fst y)" if "y \<in> set out" for y
    proof -
      from that have "y \<in># mset out" by simp
      with mo obtain v where v: "v \<in> set (tl ?xs)" "y = ?f v"
        by auto
      with xs have "v \<in> set ?xs"
        by (metis list.set_intros(2))
      then obtain j where j: "j < length ?xs" "?xs ! j = v"
        by (auto simp: in_set_conv_nth)
      from heap_root [OF strict_weak_elem_comp hp j(1)] j(2) v(2) False show ?thesis
        by (simp add: elem_comp_def hd_conv_nth)
    qed
    with out(3) have "sorted_wrt (\<lambda>x y. \<not> key_comp T (fst x) (fst y)) (?f ?r # out)"
      by simp
    with m s'(1) out(1) False top_key_value_correct [OF Suc.prems(1) False] show ?thesis
      by (simp add: empty_h_def size_h_def)
  qed
qed


section \<open>A valid heap is left as it is\<close>

lemma parent_child: "j < K \<Longrightarrow> parent (KHeap K) (child K i j) = i"
  by (simp add: parent_def KHeap_parent_def size_t_sub_def child_def)

lemma parent_left_right: "parent BinaryHeap (left i) = i" "parent BinaryHeap (right i) = i"
  by (simp_all add: parent_Binary left_eq right_eq)

lemma comp_est_update_noop:
  assumes "heap_property c s" "parent (impl c) son = i" "i < son"
  shows "comp_est_update c (size_h s) s son i = Inr i"
proof (cases "son < size_h s")
  case True
  with assms have "comp_fn c s (nodes s ! i) (nodes s ! son) = Inr False"
    by (auto simp: heap_property_def)
  with True assms(3) show ?thesis
    by (simp add: comp_est_update_def size_h_def)
next
  case False
  then show ?thesis
    by (simp add: comp_est_update_def)
qed

lemma KHeap_sons_loop_noop:
  assumes "heap_property c s" "impl c = KHeap K"
  shows "\<forall>j \<in> set js. j < K \<Longrightarrow> KHeap_sons_loop c K (size_h s) s i js i = Inr i"
proof (induction js)
  case Nil
  show ?case by simp
next
  case (Cons j js)
  then have j: "j < K" by simp
  then have "i < child K i j"
    by (cases K) (simp_all add: child_def)
  with comp_est_update_noop [OF assms(1), of "child K i j" i] assms(2) j
  have "comp_est_update c (size_h s) s (child K i j) i = Inr i"
    by (simp add: parent_child)
  with Cons show ?case
    by simp
qed

lemma heapify_down_noop:
  assumes "heap_property c s"
  shows "heapify_down c i s = Inr s"
proof (cases "impl c")
  case BinaryHeap
  have "i < left i" "i < right i"
    by (simp_all add: left_eq right_eq)
  with BinaryHeap have "comp_est_update c (size_h s) s (left i) i = Inr i"
    "comp_est_update c (size_h s) s (right i) i = Inr i"
    by (simp_all only: comp_est_update_noop [OF assms] parent_left_right)
  then have "BinaryHeap_heapify_down_loop c (size_h s) i s = Inr s"
    by (subst BinaryHeap_heapify_down_loop.simps) simp
  with BinaryHeap show ?thesis
    by (simp add: heapify_down_def BinaryHeap_heapify_down_def)
next
  case (KHeap K)
  from KHeap_sons_loop_noop [OF assms KHeap, of "[0..<K]" i]
  have "KHeap_sons_loop c K (size_h s) s i [0..<K] i = Inr i"
    by simp
  then have "KHeap_heapify_down_loop c K (size_h s) i i s = Inr s"
    by (subst KHeap_heapify_down_loop.simps) simp
  with KHeap show ?thesis
    by (simp add: heapify_down_def KHeap_heapify_down_def)
qed

lemma build_heap_loop_noop: "heap_property c s \<Longrightarrow> build_heap_loop c n s = Inr s"
  by (induction n) (simp_all add: heapify_down_noop)

lemma build_heap_noop:
  assumes "heap_property c s"
  shows "build_heap c s = Inr s"
  unfolding build_heap_def
  by (cases "impl c") (simp_all only: heap_impl.case build_heap_loop_noop [OF assms])

lemma Heap_init_noop: "heap_property c s \<Longrightarrow> Heap_init flag c s = Inr s"
  by (simp add: Heap_init_def build_heap_noop)

section \<open>Popping a whole queue\<close>

lemma pop_order_correct:
  assumes "distinct inputs" "length keys = length inputs" "well_formed h"
  shows "\<exists>out. pop_order h T (PriorityQueue_new h T False keys inputs) = Inr out \<and>
           sorted_wrt (\<lambda>x y. \<not> key_comp T (fst x) (fst y)) out \<and>
           mset out = mset (zip keys inputs)"
proof -
  from PriorityQueue_new_correct [OF assms, of T False] obtain s where
    s: "PriorityQueue_new h T False keys inputs = Inr s" "maps_consistent s"
      "mset (nodes s) = mset inputs"
      "\<forall>i < length inputs. key_map s (inputs ! i) = Some (keys ! i)"
      "heap_property (PriorityQueue_class h T) s"
    by auto
  from pop_loop_correct [OF assms(3) s(2,5) order_refl] obtain out where
    out: "pop_loop h T (size_h s) s = Inr out"
      "mset out = image_mset (\<lambda>v. (the (key_map s v), v)) (mset (nodes s))"
      "sorted_wrt (\<lambda>x y. \<not> key_comp T (fst x) (fst y)) out"
    by blast
  have "map (\<lambda>v. (the (key_map s v), v)) inputs = zip keys inputs"
    using s(4) assms(2) by (auto simp: list_eq_iff_nth_eq)
  then have "image_mset (\<lambda>v. (the (key_map s v), v)) (mset inputs) = mset (zip keys inputs)"
    by (metis mset_map)
  with out s(1,3) show ?thesis
    by (simp add: pop_order_def)
qed

lemma heap_property_code [code]:
  "heap_property c s \<longleftrightarrow>
     list_all (\<lambda>i. comp_fn c s (nodes s ! parent (impl c) i) (nodes s ! i) = Inr False)
       [1..<size_h s]"
  by (auto simp: heap_property_def list_all_iff)

section \<open>The operations of a plain heap\<close>

lemma Heap_new_correct:
  assumes "strict_weak cmp" "well_formed h"
  shows "\<exists>s. Heap_new h False inputs cmp = Inr s \<and> mset (nodes s) = mset inputs \<and>
           heap_property (Heap_class h cmp) s"
proof -
  have "\<exists>s. Heap_init False (Heap_class h cmp) \<lparr>nodes = inputs\<rparr> = Inr s \<and>
          mset (nodes s) = mset (nodes \<lparr>nodes = inputs\<rparr>) \<and> heap_from h cmp 0 (nodes s)"
    using Heap_init_correct [OF Heap_class_comp_ok Heap_class_swap_ok TrueI, of False h cmp
        "\<lparr>nodes = inputs\<rparr>"] assms
    by auto
  with assms(2) show ?thesis
    by (auto simp: Heap_new_def heap_property_Heap)
qed

lemma Heap_push_correct:
  assumes "strict_weak cmp" "heap_property (Heap_class h cmp) s"
  shows "\<exists>s'. Heap_push (Heap_class h cmp) x s = Inr s' \<and>
           mset (nodes s') = add_mset x (mset (nodes s)) \<and> heap_property (Heap_class h cmp) s'"
proof -
  let ?s1 = "s\<lparr>nodes := nodes s @ [x]\<rparr>"
  have "size_h s < length (nodes ?s1)"
    by (simp add: size_h_def)
  from heapify_up_correct [OF Heap_class_comp_ok Heap_class_swap_ok TrueI this, of h cmp]
  obtain s' where
    s': "heapify_up (Heap_class h cmp) (size_h s) ?s1 = Inr s'"
      "mset (nodes s') = mset (nodes ?s1)"
      "strict_weak cmp \<longrightarrow> up_inv h cmp (size_h s) (nodes ?s1) \<longrightarrow> heap_from h cmp 0 (nodes s')"
    by auto
  from assms(2) have "heap_from h cmp 0 (nodes s)"
    by (simp add: heap_property_Heap)
  from heap_from_push [OF this, of x] s'(3) assms(1) have "heap_from h cmp 0 (nodes s')"
    by (simp add: size_h_def)
  with s' show ?thesis
    by (simp add: Heap_push_def heap_property_Heap)
qed

lemma Heap_pop_correct:
  assumes "strict_weak cmp" "well_formed h" "nodes s \<noteq> []"
    "heap_property (Heap_class h cmp) s"
  shows "\<exists>s'. Heap_pop (Heap_class h cmp) s = Inr s' \<and> mset (nodes s') = mset (tl (nodes s)) \<and>
           heap_property (Heap_class h cmp) s'"
proof -
  let ?s1 = "s\<lparr>nodes := butlast ((nodes s)[0 := last (nodes s)])\<rparr>"
  from heapify_down_correct [OF Heap_class_comp_ok Heap_class_swap_ok TrueI, of h cmp 0 ?s1 0]
  obtain s' where
    s': "heapify_down (Heap_class h cmp) 0 ?s1 = Inr s'" "mset (nodes s') = mset (nodes ?s1)"
      "strict_weak cmp \<longrightarrow> well_formed h \<longrightarrow> down_inv h cmp 0 0 (nodes ?s1) \<longrightarrow>
         heap_from h cmp 0 (nodes s')"
    by auto
  from assms(4) have "heap_from h cmp 0 (nodes s)"
    by (simp add: heap_property_Heap)
  from heap_from_pop [OF this] s'(3) assms(1,2) have "heap_from h cmp 0 (nodes s')"
    by simp
  with s' assms(3) mset_pop [OF assms(3)] show ?thesis
    by (simp add: Heap_pop_def heap_property_Heap size_h_def)
qed

lemma strict_weak_greater: "strict_weak (\<lambda>a b. (a::'a::linorder) > b)"
  and strict_weak_less: "strict_weak (\<lambda>a b. (a::'a::linorder) < b)"
  by (auto simp: strict_weak_def)

section \<open>The tests and examples of the repository\<close>

text \<open>
  The fixtures of the heap tests (\<open>WorksIfFull\<close>, \<open>WorksIfAlreadyHeap\<close>, \<open>WorksIfEmpty\<close>) and
  the k-ary example of the README, run on the model.  The first lemma lets the evaluation
  skip the wrapped difference where \<open>is_leaf\<close> is asked about position 0.
\<close>

lemma KHeap_is_leaf_code [code]:
  "KHeap_is_leaf K sz i =
     (if 2 \<le> sz then (sz - 2) div K < i
      else if i = 0 then False else size_t_sub sz 2 div K < i)"
  by (simp add: KHeap_is_leaf_def size_t_sub_def)

lemma test_BinaryMinHeap_WorksIfFull:
  "Heap_pop_order (Heap_class BinaryHeap (\<lambda>a b. a > b))
     (make_min_heap False [30, 1, 50, 20, 40, 60, 100::int]) =
   Inr [1, 20, 30, 40, 50, 60, 100]"
  by code_simp

lemma test_BinaryMinHeap_WorksIfEmpty:
  "Heap_pop_order (Heap_class BinaryHeap (\<lambda>a b. a > b))
     (case make_min_heap False ([]::int list) of Inl e \<Rightarrow> Inl e
      | Inr s \<Rightarrow>
          Heap_push_all (Heap_class BinaryHeap (\<lambda>a b. a > b)) [30, 1, 50, 20, 40, 60, 100] s) =
   Inr [1, 20, 30, 40, 50, 60, 100]"
  by code_simp

lemma test_K4MaxHeap_WorksIfFull:
  "Heap_pop_order (Heap_class (KHeap 4) (\<lambda>a b. a < b))
     (make_max_k_heap 4 False [30, 1, 50, 20, 40, 60, 100::int]) =
   Inr [100, 60, 50, 40, 30, 20, 1]"
  by code_simp

lemma test_K4MaxHeap_WorksIfEmpty:
  "Heap_pop_order (Heap_class (KHeap 4) (\<lambda>a b. a < b))
     (case make_max_k_heap 4 False ([]::int list) of Inl e \<Rightarrow> Inl e
      | Inr s \<Rightarrow>
          Heap_push_all (Heap_class (KHeap 4) (\<lambda>a b. a < b)) [30, 1, 50, 20, 40, 60, 100] s) =
   Inr [100, 60, 50, 40, 30, 20, 1]"
  by code_simp

lemma test_K4MaxHeap_WorksIfAlreadyHeap:
  "Heap_pop_order (Heap_class (KHeap 4) (\<lambda>a b. a < b))
     (make_max_k_heap 4 True [8, 7, 6, 5, 4, 3, 2, 1, 0::int]) =
   Inr [8, 7, 6, 5, 4, 3, 2, 1, 0]"
  by code_simp

lemma example_min_k_priority_queue:
  "pop_order (KHeap 4) min_heap
     (make_min_k_priority_queue 4 False [5, 4, 1, 3, 6, 0, 2::nat] ''minheap'') =
   Inr [(0, CHR ''a''), (1, CHR ''n''), (2, CHR ''p''), (3, CHR ''h''), (4, CHR ''i''),
        (5, CHR ''m''), (6, CHR ''e'')]"
  by code_simp

section \<open>Claims\<close>

text \<open>
  C1 (sorted extraction).  A binary min priority queue built (with the build pass) from
  keys and pairwise distinct elements of equal number pops, until it is empty, every pair
  of the input exactly once and in non-decreasing key order; a max priority queue pops them
  in non-increasing key order.  The example of the specification pops in the order it
  gives.
\<close>

theorem sorted_extraction:
  "(distinct inputs \<and> length keys = length inputs \<longrightarrow>
      (\<exists>out. pop_order BinaryHeap min_heap (make_min_priority_queue False keys inputs) = Inr out \<and>
         sorted (map fst out) \<and> mset out = mset (zip keys inputs)) \<and>
      (\<exists>out. pop_order BinaryHeap max_heap (make_max_priority_queue False keys inputs) = Inr out \<and>
         sorted (rev (map fst out)) \<and> mset out = mset (zip keys inputs))) \<and>
   pop_order BinaryHeap min_heap
     (make_min_priority_queue False [5, 4, 1, 3, 6, 0, 2::nat] ''minheap'') =
   Inr [(0, CHR ''a''), (1, CHR ''n''), (2, CHR ''p''), (3, CHR ''h''), (4, CHR ''i''),
        (5, CHR ''m''), (6, CHR ''e'')]"
proof (intro conjI impI)
  assume a: "distinct inputs \<and> length keys = length inputs"
  have wf: "well_formed BinaryHeap"
    by (simp add: well_formed_def)
  from a pop_order_correct [of inputs keys BinaryHeap min_heap, OF _ _ wf] obtain out where
    out: "pop_order BinaryHeap min_heap (PriorityQueue_new BinaryHeap min_heap False keys inputs)
            = Inr out"
      "sorted_wrt (\<lambda>x y. \<not> key_comp min_heap (fst x) (fst y)) out"
      "mset out = mset (zip keys inputs)"
    by blast
  from out(2) have "sorted_wrt (\<lambda>x y. fst x \<le> fst y) out"
    by (simp add: key_comp_def not_less)
  then have "sorted (map fst out)"
    by (simp add: sorted_wrt_map)
  with out(1,3)
  show "\<exists>out. pop_order BinaryHeap min_heap (make_min_priority_queue False keys inputs) = Inr out \<and>
         sorted (map fst out) \<and> mset out = mset (zip keys inputs)"
    by (simp add: make_min_priority_queue_def)
  from a pop_order_correct [of inputs keys BinaryHeap max_heap, OF _ _ wf] obtain out' where
    out': "pop_order BinaryHeap max_heap (PriorityQueue_new BinaryHeap max_heap False keys inputs)
            = Inr out'"
      "sorted_wrt (\<lambda>x y. \<not> key_comp max_heap (fst x) (fst y)) out'"
      "mset out' = mset (zip keys inputs)"
    by blast
  from out'(2) have "sorted_wrt (\<lambda>x y. fst y \<le> fst x) out'"
    by (simp add: key_comp_def not_less)
  then have "sorted_wrt (\<lambda>x y. y \<le> x) (map fst out')"
    by (simp add: sorted_wrt_map)
  then have "sorted (rev (map fst out'))"
    by (simp add: sorted_wrt_rev)
  with out'(1,3)
  show "\<exists>out. pop_order BinaryHeap max_heap (make_max_priority_queue False keys inputs) = Inr out \<and>
         sorted (rev (map fst out)) \<and> mset out = mset (zip keys inputs)"
    by (simp add: make_max_priority_queue_def)
next
  show "pop_order BinaryHeap min_heap
     (make_min_priority_queue False [5, 4, 1, 3, 6, 0, 2::nat] ''minheap'') =
   Inr [(0, CHR ''a''), (1, CHR ''n''), (2, CHR ''p''), (3, CHR ''h''), (4, CHR ''i''),
        (5, CHR ''m''), (6, CHR ''e'')]"
    by code_simp
qed

theorem sorted_extraction_witness:
  "(\<exists>out. pop_order BinaryHeap min_heap (make_min_priority_queue False [3, 1, 2::nat] ''abc'')
            = Inr out \<and>
          sorted (map fst out) \<and> mset out = mset (zip [3, 1, 2::nat] ''abc'')) \<and>
   (\<exists>out. pop_order BinaryHeap max_heap (make_max_priority_queue False [3, 1, 2::nat] ''abc'')
            = Inr out \<and>
          sorted (rev (map fst out)) \<and> mset out = mset (zip [3, 1, 2::nat] ''abc''))"
proof -
  have "distinct ''abc'' \<and> length [3, 1, 2::nat] = length ''abc''"
    by simp
  with sorted_extraction [of "''abc''" "[3, 1, 2::nat]"] show ?thesis
    by blast
qed

text \<open>
  C2 (the heap property after \<open>update_key\<close> on a max priority queue).  The max priority
  queue built from keys 10 and 5 for \<open>a\<close> and \<open>b\<close> has \<open>a\<close> at the root.  Raising the key of
  \<open>b\<close> to 20, the direction a max queue allows, runs \<open>heapify_down\<close> from the leaf \<open>b\<close>, which
  changes nothing: the comparator answered false for the root and its child before the call
  and answers true afterwards, and \<open>top_key_value\<close> is \<open>(10, a)\<close> although \<open>b\<close> has key 20.
\<close>

theorem max_update_key_breaks_heap_property:
  "(case make_max_priority_queue False [10, 5::nat] ''ab'' of Inl e \<Rightarrow> Inl e
    | Inr s \<Rightarrow>
        (case update_key BinaryHeap max_heap 20 (CHR ''b'') s of Inl e \<Rightarrow> Inl e
         | Inr s' \<Rightarrow>
             Inr (nodes s,
                  comp_fn (PriorityQueue_class BinaryHeap max_heap) s
                    (nodes s ! parent BinaryHeap 1) (nodes s ! 1),
                  nodes s', key_at s' (CHR ''a''), key_at s' (CHR ''b''),
                  comp_fn (PriorityQueue_class BinaryHeap max_heap) s'
                    (nodes s' ! parent BinaryHeap 1) (nodes s' ! 1),
                  top_key_value s'))) =
   Inr (''ab'', Inr False, ''ab'', Inr 10, Inr 20, Inr True, Inr (10, CHR ''a''))"
  by code_simp

text \<open>
  C3 (the maps follow the vector).  For a queue of pairwise distinct elements the key sets
  of \<open>key_map\<close> and \<open>index_map\<close> are the set of elements of \<open>nodes\<close>, both have \<open>size()\<close>
  entries, and \<open>index_map\<close> gives every element its position.  The constructors establish
  this, and \<open>push\<close> of a new element, \<open>pop\<close> on a non-empty queue and \<open>update_key\<close> of a
  present element return a queue (no error) for which it holds again, for every heap
  implementation and both polarities.
\<close>

theorem maps_consistent_maintained:
  "(distinct inputs \<and> length keys = length inputs \<and> well_formed h \<longrightarrow>
      (\<exists>s. PriorityQueue_new h T flag keys inputs = Inr s \<and> maps_consistent s)) \<and>
   (maps_consistent s \<and> new_element \<notin> set (nodes s) \<longrightarrow>
      (\<exists>s'. push h T key new_element s = Inr s' \<and> maps_consistent s')) \<and>
   (maps_consistent s \<and> \<not> empty_h s \<longrightarrow>
      (\<exists>s'. pop h T s = Inr s' \<and> maps_consistent s')) \<and>
   (maps_consistent s \<and> element \<in> set (nodes s) \<longrightarrow>
      (\<exists>s'. update_key h T key element s = Inr s' \<and> maps_consistent s'))"
proof (intro conjI impI)
  assume "distinct inputs \<and> length keys = length inputs \<and> well_formed h"
  with PriorityQueue_new_correct [of inputs keys h T flag]
  show "\<exists>s. PriorityQueue_new h T flag keys inputs = Inr s \<and> maps_consistent s"
    by blast
next
  assume "maps_consistent s \<and> new_element \<notin> set (nodes s)"
  with push_correct [of s new_element h T key]
  show "\<exists>s'. push h T key new_element s = Inr s' \<and> maps_consistent s'"
    by blast
next
  assume "maps_consistent s \<and> \<not> empty_h s"
  with pop_correct [of s h T]
  show "\<exists>s'. pop h T s = Inr s' \<and> maps_consistent s'"
    by (auto simp: empty_h_def size_h_def)
next
  assume "maps_consistent s \<and> element \<in> set (nodes s)"
  with update_key_correct [of s element h T key]
  show "\<exists>s'. update_key h T key element s = Inr s' \<and> maps_consistent s'"
    by blast
qed

theorem maps_consistent_maintained_witness:
  "maps_consistent \<lparr>nodes = ''a'', key_map = [CHR ''a'' \<mapsto> 1::nat], index_map = [CHR ''a'' \<mapsto> 0]\<rparr> \<and>
   (\<exists>s. PriorityQueue_new BinaryHeap min_heap False [2, 1::nat] ''ab'' = Inr s \<and>
        maps_consistent s) \<and>
   (\<exists>s'. push BinaryHeap min_heap 0 (CHR ''b'')
           \<lparr>nodes = ''a'', key_map = [CHR ''a'' \<mapsto> 1::nat], index_map = [CHR ''a'' \<mapsto> 0]\<rparr> = Inr s' \<and>
         maps_consistent s') \<and>
   (\<exists>s'. pop BinaryHeap min_heap
           \<lparr>nodes = ''a'', key_map = [CHR ''a'' \<mapsto> 1::nat], index_map = [CHR ''a'' \<mapsto> 0]\<rparr> = Inr s' \<and>
         maps_consistent s') \<and>
   (\<exists>s'. update_key BinaryHeap min_heap 0 (CHR ''a'')
           \<lparr>nodes = ''a'', key_map = [CHR ''a'' \<mapsto> 1::nat], index_map = [CHR ''a'' \<mapsto> 0]\<rparr> = Inr s' \<and>
         maps_consistent s')"
proof -
  let ?s = "\<lparr>nodes = ''a'', key_map = [CHR ''a'' \<mapsto> 1::nat], index_map = [CHR ''a'' \<mapsto> 0]\<rparr>"
  have mc: "maps_consistent ?s"
    by (simp add: maps_consistent_def size_h_def)
  moreover have "distinct ''ab'' \<and> length [2, 1::nat] = length ''ab'' \<and> well_formed BinaryHeap"
    by (simp add: well_formed_def)
  moreover have "CHR ''b'' \<notin> set (nodes ?s)" "\<not> empty_h ?s" "CHR ''a'' \<in> set (nodes ?s)"
    by (simp_all add: empty_h_def size_h_def)
  ultimately show ?thesis
    using maps_consistent_maintained
      [of "''ab''" "[2, 1::nat]" BinaryHeap min_heap False ?s "CHR ''b''" 0 "CHR ''a''"]
    by blast
qed

text \<open>
  C4 (\<open>update_key\<close> in the allowed direction).  In a min priority queue that satisfies the
  heap property, \<open>update_key\<close> of a present element with a key not above its old key is one
  \<open>heapify_up\<close> from the index of the element, run on the queue with the key overwritten; it
  returns a queue whose key map is the old one with the new key at the element, and the heap
  property holds again.  The example of the specification pops in the order it gives, built
  with either value of the already-a-heap flag.
\<close>

theorem update_key_decrease:
  "(maps_consistent s \<and> heap_property (PriorityQueue_class h min_heap) s \<and>
    key_map s element = Some old \<and> key \<le> old \<longrightarrow>
      (\<exists>i s'. index_map s element = Some i \<and> nodes s ! i = element \<and>
         update_key h min_heap key element s =
           heapify_up (PriorityQueue_class h min_heap) i
             (s\<lparr>key_map := (key_map s)(element \<mapsto> key)\<rparr>) \<and>
         update_key h min_heap key element s = Inr s' \<and>
         key_map s' = (key_map s)(element \<mapsto> key) \<and>
         heap_property (PriorityQueue_class h min_heap) s' \<and> maps_consistent s')) \<and>
   (\<forall>flag.
      pop_order BinaryHeap min_heap
        (case make_min_priority_queue flag [0, 2, 4, 6, 8, 10, 12::nat] ''minheap'' of
           Inl e \<Rightarrow> Inl e
         | Inr s0 \<Rightarrow>
             (case update_key BinaryHeap min_heap 5 (CHR ''e'') s0 of Inl e \<Rightarrow> Inl e
              | Inr s1 \<Rightarrow> update_key BinaryHeap min_heap 1 (CHR ''p'') s1)) =
      Inr [(0, CHR ''m''), (1, CHR ''p''), (2, CHR ''i''), (4, CHR ''n''), (5, CHR ''e''),
           (6, CHR ''h''), (10, CHR ''a'')])"
proof (intro conjI impI allI)
  assume a: "maps_consistent s \<and> heap_property (PriorityQueue_class h min_heap) s \<and>
    key_map s element = Some old \<and> key \<le> old"
  then have "element \<in> dom (key_map s)" by auto
  with a have "element \<in> set (nodes s)"
    by (simp add: maps_consistent_def)
  with a update_key_correct [of s element h min_heap key]
  show "\<exists>i s'. index_map s element = Some i \<and> nodes s ! i = element \<and>
         update_key h min_heap key element s =
           heapify_up (PriorityQueue_class h min_heap) i
             (s\<lparr>key_map := (key_map s)(element \<mapsto> key)\<rparr>) \<and>
         update_key h min_heap key element s = Inr s' \<and>
         key_map s' = (key_map s)(element \<mapsto> key) \<and>
         heap_property (PriorityQueue_class h min_heap) s' \<and> maps_consistent s'"
    by fastforce
next
  fix flag
  have run: "pop_order BinaryHeap min_heap
        (case make_min_priority_queue b [0, 2, 4, 6, 8, 10, 12::nat] ''minheap'' of
           Inl e \<Rightarrow> Inl e
         | Inr s0 \<Rightarrow>
             (case update_key BinaryHeap min_heap 5 (CHR ''e'') s0 of Inl e \<Rightarrow> Inl e
              | Inr s1 \<Rightarrow> update_key BinaryHeap min_heap 1 (CHR ''p'') s1)) =
      Inr [(0, CHR ''m''), (1, CHR ''p''), (2, CHR ''i''), (4, CHR ''n''), (5, CHR ''e''),
           (6, CHR ''h''), (10, CHR ''a'')]" if "b = True \<or> b = False" for b
    using that by (elim disjE; hypsubst) code_simp+
  show "pop_order BinaryHeap min_heap
        (case make_min_priority_queue flag [0, 2, 4, 6, 8, 10, 12::nat] ''minheap'' of
           Inl e \<Rightarrow> Inl e
         | Inr s0 \<Rightarrow>
             (case update_key BinaryHeap min_heap 5 (CHR ''e'') s0 of Inl e \<Rightarrow> Inl e
              | Inr s1 \<Rightarrow> update_key BinaryHeap min_heap 1 (CHR ''p'') s1)) =
      Inr [(0, CHR ''m''), (1, CHR ''p''), (2, CHR ''i''), (4, CHR ''n''), (5, CHR ''e''),
           (6, CHR ''h''), (10, CHR ''a'')]"
    by (rule run) simp
qed

theorem update_key_decrease_witness:
  "maps_consistent \<lparr>nodes = ''ab'', key_map = [CHR ''a'' \<mapsto> 1::nat, CHR ''b'' \<mapsto> 5],
                    index_map = [CHR ''a'' \<mapsto> 0, CHR ''b'' \<mapsto> 1]\<rparr> \<and>
   heap_property (PriorityQueue_class BinaryHeap min_heap)
     \<lparr>nodes = ''ab'', key_map = [CHR ''a'' \<mapsto> 1::nat, CHR ''b'' \<mapsto> 5],
      index_map = [CHR ''a'' \<mapsto> 0, CHR ''b'' \<mapsto> 1]\<rparr> \<and>
   (\<exists>s'. update_key BinaryHeap min_heap 0 (CHR ''b'')
            \<lparr>nodes = ''ab'', key_map = [CHR ''a'' \<mapsto> 1::nat, CHR ''b'' \<mapsto> 5],
             index_map = [CHR ''a'' \<mapsto> 0, CHR ''b'' \<mapsto> 1]\<rparr> = Inr s' \<and>
          key_map s' (CHR ''b'') = Some 0 \<and>
          heap_property (PriorityQueue_class BinaryHeap min_heap) s' \<and> maps_consistent s')"
proof -
  let ?s = "\<lparr>nodes = ''ab'', key_map = [CHR ''a'' \<mapsto> 1::nat, CHR ''b'' \<mapsto> 5],
             index_map = [CHR ''a'' \<mapsto> 0, CHR ''b'' \<mapsto> 1]\<rparr>"
  have mc: "maps_consistent ?s"
    by (auto simp: maps_consistent_def size_h_def less_Suc_eq)
  have hp: "heap_property (PriorityQueue_class BinaryHeap min_heap) ?s"
    by (auto simp: heap_property_def size_h_def less_Suc_eq parent_Binary
        PriorityQueue_class_def min_heap_comp_factory_def map_at_def)
  have "key_map ?s (CHR ''b'') = Some 5 \<and> (0::nat) \<le> 5"
    by simp
  with mc hp obtain s' where
    "update_key BinaryHeap min_heap 0 (CHR ''b'') ?s = Inr s'"
    "key_map s' = (key_map ?s)(CHR ''b'' \<mapsto> 0)"
    "heap_property (PriorityQueue_class BinaryHeap min_heap) s'" "maps_consistent s'"
    using update_key_decrease [of ?s BinaryHeap "CHR ''b''" 5 0] by blast
  with mc hp show ?thesis
    by auto
qed

text \<open>
  C5 (the already-a-heap flag).  When the input satisfies the heap property for the
  comparator of the class, the constructor returns the same object with the flag set as
  with the flag cleared (\<open>build_heap\<close> changes nothing), for plain heaps and for priority
  queues of every implementation and polarity; so the pop orders are the same.
\<close>

theorem already_heap_flag:
  "(heap_property (Heap_class h cmp) \<lparr>nodes = inputs\<rparr> \<longrightarrow>
      Heap_new h True inputs cmp = Heap_new h False inputs cmp \<and>
      Heap_pop_order (Heap_class h cmp) (Heap_new h True inputs cmp) =
        Heap_pop_order (Heap_class h cmp) (Heap_new h False inputs cmp)) \<and>
   (PriorityQueue_members keys elements = Inr s0 \<and> heap_property (PriorityQueue_class h T) s0 \<longrightarrow>
      PriorityQueue_new h T True keys elements = PriorityQueue_new h T False keys elements \<and>
      pop_order h T (PriorityQueue_new h T True keys elements) =
        pop_order h T (PriorityQueue_new h T False keys elements))"
proof (intro conjI impI)
  assume "heap_property (Heap_class h cmp) \<lparr>nodes = inputs\<rparr>"
  from Heap_init_noop [OF this]
  show eq: "Heap_new h True inputs cmp = Heap_new h False inputs cmp"
    by (simp add: Heap_new_def)
  show "Heap_pop_order (Heap_class h cmp) (Heap_new h True inputs cmp) =
        Heap_pop_order (Heap_class h cmp) (Heap_new h False inputs cmp)"
    by (simp only: eq)
next
  assume a: "PriorityQueue_members keys elements = Inr s0 \<and>
    heap_property (PriorityQueue_class h T) s0"
  then have "heap_property (PriorityQueue_class h T) s0" by simp
  from Heap_init_noop [OF this] a
  show eq: "PriorityQueue_new h T True keys elements = PriorityQueue_new h T False keys elements"
    by (simp add: PriorityQueue_new_def)
  show "pop_order h T (PriorityQueue_new h T True keys elements) =
        pop_order h T (PriorityQueue_new h T False keys elements)"
    by (simp only: eq)
qed

theorem already_heap_flag_witness:
  "heap_property (Heap_class BinaryHeap (\<lambda>a b. b < a)) \<lparr>nodes = [1, 3, 2::nat]\<rparr> \<and>
   make_min_heap True [1, 3, 2::nat] = make_min_heap False [1, 3, 2] \<and>
   PriorityQueue_members [1, 3, 2::nat] ''abc'' =
     Inr \<lparr>nodes = ''abc'', key_map = [CHR ''a'' \<mapsto> 1, CHR ''b'' \<mapsto> 3, CHR ''c'' \<mapsto> 2],
          index_map = [CHR ''a'' \<mapsto> 0, CHR ''b'' \<mapsto> 1, CHR ''c'' \<mapsto> 2]\<rparr> \<and>
   heap_property (PriorityQueue_class (KHeap 3) min_heap)
     \<lparr>nodes = ''abc'', key_map = [CHR ''a'' \<mapsto> 1::nat, CHR ''b'' \<mapsto> 3, CHR ''c'' \<mapsto> 2],
      index_map = [CHR ''a'' \<mapsto> 0, CHR ''b'' \<mapsto> 1, CHR ''c'' \<mapsto> 2]\<rparr> \<and>
   make_min_k_priority_queue 3 True [1, 3, 2::nat] ''abc'' =
     make_min_k_priority_queue 3 False [1, 3, 2] ''abc'' \<and>
   pop_order (KHeap 3) min_heap (make_min_k_priority_queue 3 True [1, 3, 2::nat] ''abc'') =
     pop_order (KHeap 3) min_heap (make_min_k_priority_queue 3 False [1, 3, 2] ''abc'')"
proof -
  let ?s0 = "\<lparr>nodes = ''abc'', key_map = [CHR ''a'' \<mapsto> 1::nat, CHR ''b'' \<mapsto> 3, CHR ''c'' \<mapsto> 2],
          index_map = [CHR ''a'' \<mapsto> 0, CHR ''b'' \<mapsto> 1, CHR ''c'' \<mapsto> 2]\<rparr>"
  have hp: "heap_property (Heap_class BinaryHeap (\<lambda>a b. b < a)) \<lparr>nodes = [1, 3, 2::nat]\<rparr>"
    by code_simp
  have m: "PriorityQueue_members [1, 3, 2::nat] ''abc'' = Inr ?s0"
    by (simp add: PriorityQueue_members_def build_key_map_def build_index_map_def enumerate_eq_zip
        upt_rec numeral_3_eq_3 numeral_2_eq_2)
  have hq: "heap_property (PriorityQueue_class (KHeap 3) min_heap) ?s0"
    by code_simp
  from hp m hq
    already_heap_flag [of BinaryHeap "\<lambda>a b. b < a" "[1, 3, 2::nat]" "[1, 3, 2::nat]" "''abc''" ?s0
      min_heap]
    already_heap_flag [of "KHeap 3" "\<lambda>a b. b < a" "[1, 3, 2::nat]" "[1, 3, 2::nat]" "''abc''" ?s0
      min_heap]
  show ?thesis
    by (simp add: make_min_heap_def make_min_k_priority_queue_def)
qed

text \<open>
  C6 (the leaf test).  \<open>left\<close>, \<open>right\<close> and \<open>parent\<close> are as the specification gives them,
  but \<open>is_leaf\<close> compares with \<open>size / 2 + 1\<close>: in a heap of seven elements position 3 has
  no child in range (its left child would be position 7) and \<open>7 / 2 \<le> 3\<close>, yet \<open>is_leaf\<close>
  answers false; in a heap of one element the root is not classified as a leaf either.
\<close>

theorem BinaryHeap_is_leaf_misses_a_leaf:
  "(\<forall>i. left i = 2 * i + 1 \<and> right i = 2 * i + 2 \<and> BinaryHeap_parent (Suc i) = i div 2) \<and>
   BinaryHeap_is_leaf 7 3 = False \<and> 7 \<le> left 3 \<and> 7 div 2 \<le> (3::nat) \<and>
   BinaryHeap_is_leaf 1 0 = False \<and> 1 \<le> left 0"
  by (simp add: left_eq right_eq BinaryHeap_parent_def BinaryHeap_is_leaf_def size_t_sub_def
      drop_bit_eq_div)

text \<open>
  C7 (the arity boundary).  The template constraint \<open>K > 2\<close> of \<open>KHeap\<close> is the guard
  \<open>well_formed\<close> of the constructors: with \<open>K = 1\<close> or \<open>K = 2\<close> every factory of a k-ary heap
  or k-ary priority queue is refused (\<open>ill_formed\<close>), a k-ary heap is constructed
  exactly when \<open>2 < K\<close>, and so is a k-ary priority queue from keys and pairwise distinct
  elements of equal number.
\<close>

theorem KHeap_arity_boundary:
  "(K = 1 \<or> K = 2 \<longrightarrow>
      make_min_k_heap K flag inputs = Inl ill_formed \<and>
      make_max_k_heap K flag inputs = Inl ill_formed \<and>
      make_min_k_priority_queue K flag keys elements = Inl ill_formed \<and>
      make_max_k_priority_queue K flag keys elements = Inl ill_formed) \<and>
   ((\<exists>s. make_min_k_heap K flag inputs = Inr s) \<longleftrightarrow> 2 < K) \<and>
   ((\<exists>s. make_max_k_heap K flag inputs = Inr s) \<longleftrightarrow> 2 < K) \<and>
   ((\<exists>s. make_min_k_priority_queue K flag keys elements = Inr s) \<longrightarrow> 2 < K) \<and>
   ((\<exists>s. make_max_k_priority_queue K flag keys elements = Inr s) \<longrightarrow> 2 < K) \<and>
   (2 < K \<and> distinct elements \<and> length keys = length elements \<longrightarrow>
      (\<exists>s. make_min_k_priority_queue K flag keys elements = Inr s) \<and>
      (\<exists>s. make_max_k_priority_queue K flag keys elements = Inr s))"
proof -
  have built: "\<exists>s. Heap_new (KHeap K) flag inputs cmp = Inr s" if "2 < K" for cmp
  proof -
    have "\<exists>s. Heap_init flag (Heap_class (KHeap K) cmp) \<lparr>nodes = inputs\<rparr> = Inr s"
      using Heap_init_correct [OF Heap_class_comp_ok Heap_class_swap_ok TrueI] by blast
    with that show ?thesis
      by (simp add: Heap_new_def well_formed_def)
  qed
  have refused: "Heap_new (KHeap K) flag inputs cmp = Inl ill_formed" if "\<not> 2 < K" for cmp
    using that by (simp add: Heap_new_def well_formed_def)
  have refused_pq:
    "PriorityQueue_new (KHeap K) T flag keys elements = Inl ill_formed" if "\<not> 2 < K" for T
    using that by (simp add: PriorityQueue_new_def well_formed_def)
  have built_pq: "\<exists>s. PriorityQueue_new (KHeap K) T flag keys elements = Inr s"
    if "2 < K \<and> distinct elements \<and> length keys = length elements" for T
    using that PriorityQueue_new_correct [of elements keys "KHeap K" T flag]
    by (auto simp: well_formed_def)
  show ?thesis
    unfolding make_min_k_heap_def make_max_k_heap_def make_min_k_priority_queue_def
      make_max_k_priority_queue_def
    using built refused refused_pq built_pq
    by (intro conjI impI iffI; cases "2 < K"; fastforce)
qed

theorem KHeap_arity_boundary_witness:
  "make_min_k_heap 1 False [3, 1, 2::nat] = Inl ill_formed \<and>
   make_max_k_heap 2 False [3, 1, 2::nat] = Inl ill_formed \<and>
   make_min_k_priority_queue 2 False [3, 1, 2::nat] ''abc'' = Inl ill_formed \<and>
   (\<exists>s. make_min_k_heap 3 False [3, 1, 2::nat] = Inr s) \<and>
   (\<exists>s. make_min_k_priority_queue 3 False [3, 1, 2::nat] ''abc'' = Inr s)"
  using KHeap_arity_boundary [of 1 False "[3, 1, 2::nat]" "[3, 1, 2::nat]" "''abc''"]
    KHeap_arity_boundary [of 2 False "[3, 1, 2::nat]" "[3, 1, 2::nat]" "''abc''"]
    KHeap_arity_boundary [of 3 False "[3, 1, 2::nat]" "[3, 1, 2::nat]" "''abc''"]
  by simp

text \<open>
  C8 (violated contracts fail at the call).  \<open>top\<close> and \<open>pop\<close> on an empty heap or queue
  stop at their assertion; \<open>update_key\<close> and \<open>key_at\<close> with an element that is not in the
  queue raise \<open>out_of_range\<close> from the first map access; a constructor given keys and
  elements of different numbers stops at the assertion of \<open>build_key_map\<close>.  None of them
  returns a value.
\<close>

theorem contract_violations_fail:
  "(empty_h s \<longrightarrow> Heap_top s = Inl assertion_failed \<and> Heap_pop c s = Inl assertion_failed) \<and>
   (empty_h q \<longrightarrow>
      top q = Inl assertion_failed \<and> top_key_value q = Inl assertion_failed \<and>
      pop h T q = Inl assertion_failed) \<and>
   (maps_consistent q \<and> element \<notin> set (nodes q) \<longrightarrow>
      \<not> contains q element \<and> update_key h T key element q = Inl out_of_range \<and>
      key_at q element = Inl out_of_range) \<and>
   (index_map q element = None \<longrightarrow> update_key h T key element q = Inl out_of_range) \<and>
   (key_map q element = None \<longrightarrow> key_at q element = Inl out_of_range) \<and>
   (length keys \<noteq> length inputs \<and> well_formed h \<longrightarrow>
      PriorityQueue_new h T flag keys inputs = Inl assertion_failed)"
proof (intro conjI impI)
  assume "maps_consistent q \<and> element \<notin> set (nodes q)"
  then have "index_map q element = None" "key_map q element = None"
    by (auto simp: maps_consistent_def)
  then show "\<not> contains q element" "update_key h T key element q = Inl out_of_range"
    "key_at q element = Inl out_of_range"
    by (simp_all add: contains_def update_key_def key_at_def map_at_def)
qed (simp_all add: empty_h_def Heap_top_def Heap_pop_def top_def top_key_value_def pop_def
    update_key_def key_at_def map_at_def PriorityQueue_new_def PriorityQueue_members_def
    build_key_map_def)

theorem contract_violations_fail_witness:
  "Heap_top \<lparr>nodes = ([]::nat list)\<rparr> = Inl assertion_failed \<and>
   Heap_pop (Heap_class BinaryHeap (\<lambda>a b. b < a)) \<lparr>nodes = ([]::nat list)\<rparr> = Inl assertion_failed \<and>
   top \<lparr>nodes = [], key_map = (Map.empty :: char \<rightharpoonup> nat), index_map = Map.empty\<rparr>
     = Inl assertion_failed \<and>
   pop BinaryHeap min_heap
     \<lparr>nodes = [], key_map = (Map.empty :: char \<rightharpoonup> nat), index_map = Map.empty\<rparr>
     = Inl assertion_failed \<and>
   update_key BinaryHeap min_heap 1 (CHR ''a'')
     \<lparr>nodes = [], key_map = (Map.empty :: char \<rightharpoonup> nat), index_map = Map.empty\<rparr>
     = Inl out_of_range \<and>
   key_at \<lparr>nodes = [], key_map = (Map.empty :: char \<rightharpoonup> nat), index_map = Map.empty\<rparr> (CHR ''a'')
     = Inl out_of_range \<and>
   PriorityQueue_new BinaryHeap min_heap False [1, 2::nat] ''a'' = Inl assertion_failed"
proof -
  let ?q = "\<lparr>nodes = [], key_map = (Map.empty :: char \<rightharpoonup> nat), index_map = Map.empty\<rparr>"
  have "empty_h \<lparr>nodes = ([]::nat list)\<rparr>" "empty_h ?q" "maps_consistent ?q"
    "CHR ''a'' \<notin> set (nodes ?q)" "index_map ?q (CHR ''a'') = None"
    "key_map ?q (CHR ''a'') = None"
    "length [1, 2::nat] \<noteq> length ''a'' \<and> well_formed BinaryHeap"
    by (simp_all add: empty_h_def size_h_def maps_consistent_def well_formed_def)
  with contract_violations_fail [of "\<lparr>nodes = ([]::nat list)\<rparr>"
      "Heap_class BinaryHeap (\<lambda>a b. b < a)" ?q BinaryHeap min_heap "CHR ''a''" 1 "[1, 2::nat]"
      "''a''" False]
  show ?thesis
    by blast
qed

text \<open>
  C9 (\<open>pop\<close> on a heap that becomes empty or a singleton).  \<open>Heap::pop\<close> on a non-empty heap
  is \<open>heapify_down(0)\<close> on the shrunk vector, with no test in between.  On a vector of at
  most one element \<open>heapify_down(0)\<close> returns the heap as it is, whatever the comparator and
  \<open>swap_nodes\<close> of the class would do (they may fail on every call): neither is called and
  no position is read.  This holds for \<open>BinaryHeap\<close> and for \<open>KHeap\<close> of every arity, where
  \<open>is_leaf\<close> answers false at position 0 after \<open>size - 2\<close> has wrapped around.
\<close>

theorem pop_heapify_down_small:
  "(0 < size_h s \<longrightarrow>
      Heap_pop c s = heapify_down c 0 (s\<lparr>nodes := butlast ((nodes s)[0 := last (nodes s)])\<rparr>)) \<and>
   (size_h s \<le> 1 \<longrightarrow> heapify_down c 0 s = Inr s) \<and>
   (0 < size_h s \<and> size_h s \<le> 2 \<longrightarrow>
      Heap_pop c s = Inr (s\<lparr>nodes := butlast ((nodes s)[0 := last (nodes s)])\<rparr>)) \<and>
   (sz < 2 \<longrightarrow> size_t_sub sz 2 = 2 ^ 64 + sz - 2 \<and> \<not> KHeap_is_leaf K sz 0 \<and>
      \<not> BinaryHeap_is_leaf sz 0)"
proof (intro conjI impI)
  assume "0 < size_h s"
  then show "Heap_pop c s = heapify_down c 0 (s\<lparr>nodes := butlast ((nodes s)[0 := last (nodes s)])\<rparr>)"
    by (simp add: Heap_pop_def)
next
  assume "size_h s \<le> 1"
  then show "heapify_down c 0 s = Inr s"
    by (rule heapify_down_small)
next
  let ?s = "s\<lparr>nodes := butlast ((nodes s)[0 := last (nodes s)])\<rparr>"
  assume a: "0 < size_h s \<and> size_h s \<le> 2"
  then have "size_h ?s \<le> 1"
    by (auto simp: size_h_def)
  from heapify_down_small [OF this] a show "Heap_pop c s = Inr ?s"
    by (simp add: Heap_pop_def)
next
  assume "sz < 2"
  then show "size_t_sub sz 2 = 2 ^ 64 + sz - 2"
    by (simp add: size_t_sub_def)
next
  show "\<not> KHeap_is_leaf K sz 0"
    by (simp add: KHeap_is_leaf_def)
next
  show "\<not> BinaryHeap_is_leaf sz 0"
    by (simp add: BinaryHeap_is_leaf_def)
qed

theorem pop_heapify_down_small_witness:
  "Heap_pop \<lparr>impl = KHeap 3, comp_fn = (\<lambda>s a b. Inl out_of_range),
             swap_nodes = (\<lambda>i j s. Inl out_of_range)\<rparr> \<lparr>nodes = [5::nat, 7]\<rparr> = Inr \<lparr>nodes = [7]\<rparr> \<and>
   heapify_down \<lparr>impl = KHeap 3, comp_fn = (\<lambda>s a b. Inl out_of_range),
             swap_nodes = (\<lambda>i j s. Inl out_of_range)\<rparr> 0 \<lparr>nodes = [7::nat]\<rparr> = Inr \<lparr>nodes = [7]\<rparr> \<and>
   size_t_sub 1 2 = 2 ^ 64 - 1 \<and> \<not> KHeap_is_leaf 3 1 0"
proof -
  let ?c = "\<lparr>impl = KHeap 3, comp_fn = (\<lambda>s (a::nat) b. Inl out_of_range),
             swap_nodes = (\<lambda>i j (s::nat Heap). Inl out_of_range)\<rparr>"
  have "Heap_pop ?c \<lparr>nodes = [5::nat, 7]\<rparr> = Inr \<lparr>nodes = [7]\<rparr>"
    using pop_heapify_down_small [of "\<lparr>nodes = [5::nat, 7]\<rparr>" ?c 1 3]
    by (auto simp: size_h_def)
  moreover have "heapify_down ?c 0 \<lparr>nodes = [7::nat]\<rparr> = Inr \<lparr>nodes = [7]\<rparr>"
    using pop_heapify_down_small [of "\<lparr>nodes = [7::nat]\<rparr>" ?c 1 3]
    by (auto simp: size_h_def)
  moreover have "size_t_sub 1 2 = 2 ^ 64 - 1 \<and> \<not> KHeap_is_leaf 3 1 0"
    using pop_heapify_down_small [of "\<lparr>nodes = [7::nat]\<rparr>" ?c 1 3]
    by simp
  ultimately show ?thesis
    by blast
qed

text \<open>
  C10 (the frame of \<open>update_key\<close>).  In a min priority queue, \<open>update_key(k, e)\<close> for a
  present element \<open>e\<close> returns a queue whose key map differs from the old one at \<open>e\<close> only,
  whose vector holds the same elements as before (as a multiset), and whose index map
  again gives every element its position.
\<close>

theorem update_key_frame:
  "maps_consistent s \<and> element \<in> set (nodes s) \<longrightarrow>
     (\<exists>s'. update_key h min_heap key element s = Inr s' \<and>
        (\<forall>x. x \<noteq> element \<longrightarrow> key_map s' x = key_map s x) \<and> key_map s' element = Some key \<and>
        mset (nodes s') = mset (nodes s) \<and> maps_consistent s' \<and>
        (\<forall>i < size_h s'. index_map s' (nodes s' ! i) = Some i))"
proof
  assume "maps_consistent s \<and> element \<in> set (nodes s)"
  with update_key_correct [of s element h min_heap key] obtain s' where
    s': "update_key h min_heap key element s = Inr s'" "maps_consistent s'"
      "key_map s' = (key_map s)(element \<mapsto> key)" "mset (nodes s') = mset (nodes s)"
    by blast
  from s'(2) have "\<forall>i < size_h s'. index_map s' (nodes s' ! i) = Some i"
    by (simp add: maps_consistent_def)
  with s' show "\<exists>s'. update_key h min_heap key element s = Inr s' \<and>
        (\<forall>x. x \<noteq> element \<longrightarrow> key_map s' x = key_map s x) \<and> key_map s' element = Some key \<and>
        mset (nodes s') = mset (nodes s) \<and> maps_consistent s' \<and>
        (\<forall>i < size_h s'. index_map s' (nodes s' ! i) = Some i)"
    by simp
qed

theorem update_key_frame_witness:
  "maps_consistent \<lparr>nodes = ''ab'', key_map = [CHR ''a'' \<mapsto> 1::nat, CHR ''b'' \<mapsto> 5],
                    index_map = [CHR ''a'' \<mapsto> 0, CHR ''b'' \<mapsto> 1]\<rparr> \<and>
   (\<exists>s'. update_key BinaryHeap min_heap 0 (CHR ''b'')
            \<lparr>nodes = ''ab'', key_map = [CHR ''a'' \<mapsto> 1::nat, CHR ''b'' \<mapsto> 5],
             index_map = [CHR ''a'' \<mapsto> 0, CHR ''b'' \<mapsto> 1]\<rparr> = Inr s' \<and>
          key_map s' (CHR ''a'') = Some 1 \<and> key_map s' (CHR ''b'') = Some 0 \<and>
          mset (nodes s') = mset ''ab'' \<and> maps_consistent s')"
proof -
  let ?s = "\<lparr>nodes = ''ab'', key_map = [CHR ''a'' \<mapsto> 1::nat, CHR ''b'' \<mapsto> 5],
             index_map = [CHR ''a'' \<mapsto> 0, CHR ''b'' \<mapsto> 1]\<rparr>"
  have mc: "maps_consistent ?s"
    by (auto simp: maps_consistent_def size_h_def less_Suc_eq)
  moreover have "CHR ''b'' \<in> set (nodes ?s)"
    by simp
  ultimately obtain s' where
    "update_key BinaryHeap min_heap 0 (CHR ''b'') ?s = Inr s'"
    "\<forall>x. x \<noteq> CHR ''b'' \<longrightarrow> key_map s' x = key_map ?s x" "key_map s' (CHR ''b'') = Some 0"
    "mset (nodes s') = mset (nodes ?s)" "maps_consistent s'"
    using update_key_frame [of ?s "CHR ''b''" BinaryHeap 0] by blast
  with mc show ?thesis
    by auto
qed

end
